theory Spec2Isabelle
  imports Complex_Main "HOL-Library.Word"
begin

unbundle bit_operations_syntax

section \<open>Rectangles\<close>

text \<open>
  The cache of \<^verbatim>\<open>src/core/gpu_hw_texture_cache.cpp\<close> works on rectangles of VRAM,
  held in a \<^verbatim>\<open>GSVector4i\<close> of four signed 32-bit lanes (left, top, right, bottom; the
  right and bottom edges are exclusive). All coordinates the cache handles lie inside
  the 1024x512 VRAM surface, so the lanes are modelled as integers.

  Modelled from the spec: the type \<^verbatim>\<open>GSVector4i\<close> and its rectangle helpers are declared in
  \<^verbatim>\<open>common/gsvector.h\<close>, which is not among the sources; they are given the meaning
  their names and every use in the cache agree on: \<^verbatim>\<open>rempty\<close> holds unless left < right and
  top < bottom, \<^verbatim>\<open>rintersect\<close> takes the larger left/top and the smaller right/bottom,
  \<^verbatim>\<open>runion\<close> the smaller left/top and the larger right/bottom, \<^verbatim>\<open>rintersects\<close> is a
  non-empty intersection, \<^verbatim>\<open>rcontains\<close> says that intersecting with the argument leaves
  the argument unchanged, and \<^verbatim>\<open>eq\<close> compares all four lanes.
\<close>

datatype GSVector4i = GSVector4i (left: int) (top_y: int) (right: int) (bottom: int)

definition width :: "GSVector4i \<Rightarrow> int" where
  "width rc = right rc - left rc"

definition height :: "GSVector4i \<Rightarrow> int" where
  "height rc = bottom rc - top_y rc"

definition rempty :: "GSVector4i \<Rightarrow> bool" where
  "rempty rc = (\<not> (left rc < right rc \<and> top_y rc < bottom rc))"

definition rintersect :: "GSVector4i \<Rightarrow> GSVector4i \<Rightarrow> GSVector4i" where
  "rintersect a b =
     GSVector4i (max (left a) (left b)) (max (top_y a) (top_y b))
                (min (right a) (right b)) (min (bottom a) (bottom b))"

definition runion :: "GSVector4i \<Rightarrow> GSVector4i \<Rightarrow> GSVector4i" where
  "runion a b =
     GSVector4i (min (left a) (left b)) (min (top_y a) (top_y b))
                (max (right a) (right b)) (max (bottom a) (bottom b))"

definition rintersects :: "GSVector4i \<Rightarrow> GSVector4i \<Rightarrow> bool" where
  "rintersects a b = (\<not> rempty (rintersect a b))"

definition rcontains :: "GSVector4i \<Rightarrow> GSVector4i \<Rightarrow> bool" where
  "rcontains a b = (rintersect a b = b)"

text \<open>The texels a rectangle covers.\<close>

definition covers :: "GSVector4i \<Rightarrow> int \<times> int \<Rightarrow> bool" where
  "covers rc p = (left rc \<le> fst p \<and> fst p < right rc \<and> top_y rc \<le> snd p \<and> snd p < bottom rc)"

text \<open>
  \<^verbatim>\<open>GPU_HW::INVALID_RECT\<close> (declared in \<^verbatim>\<open>gpu_hw.h\<close>) is the rectangle that a union
  starts from: the largest value in left/top, the smallest in right/bottom.
\<close>

definition INVALID_RECT :: GSVector4i where
  "INVALID_RECT = GSVector4i 2147483647 2147483647 (- 2147483648) (- 2147483648)"

section \<open>Drawn rectangles of a page\<close>

definition NUM_PAGE_DRAW_RECTS :: nat where
  "NUM_PAGE_DRAW_RECTS = 4"

text \<open>
  \<^verbatim>\<open>RectDistance\<close> converts both rectangles to four floats and returns the dot product of
  two points. For rectangles inside VRAM every intermediate value is a multiple of 1/4
  below \<open>2^22\<close>, which a 32-bit float holds exactly, so the function is modelled over the
  rationals. The second point adds to the left/top of \<open>rhs\<close> half of the difference
  between the right/bottom of \<open>rhs\<close> and the left/top of \<open>lhs\<close>, as the source does.
\<close>

definition RectDistance :: "GSVector4i \<Rightarrow> GSVector4i \<Rightarrow> rat" where
  "RectDistance lhs rhs =
     (let clhs_x = of_int (left lhs) + (of_int (right lhs) - of_int (left lhs)) * (1 / 2);
          clhs_y = of_int (top_y lhs) + (of_int (bottom lhs) - of_int (top_y lhs)) * (1 / 2);
          crhs_x = of_int (left rhs) + (of_int (right rhs) - of_int (left lhs)) * (1 / 2);
          crhs_y = of_int (top_y rhs) + (of_int (bottom rhs) - of_int (top_y lhs)) * (1 / 2)
      in clhs_x * crhs_x + clhs_y * crhs_y)"

text \<open>
  The first loop of the page callback of \<^verbatim>\<open>AddDrawnRectangle\<close>: it returns \<open>None\<close> when
  the callback returns early because a drawn rectangle already contains \<open>rc\<close>, and
  otherwise the candidate after the loop (the last slot that the clip rectangle
  intersects, or the initial value).
\<close>

fun scan_draw_rects :: "GSVector4i list \<Rightarrow> nat \<Rightarrow> nat \<Rightarrow> GSVector4i \<Rightarrow> GSVector4i \<Rightarrow> nat option" where
  "scan_draw_rects [] i candidate rc clip_rect = Some candidate"
| "scan_draw_rects (page_draw_rect # rest) i candidate rc clip_rect =
     (if rcontains page_draw_rect rc then None
      else if rintersects clip_rect page_draw_rect
        then scan_draw_rects rest (Suc i) i rc clip_rect
        else scan_draw_rects rest (Suc i) candidate rc clip_rect)"

text \<open>The second loop: the slot with the smallest \<^verbatim>\<open>RectDistance\<close>, the first one on ties.\<close>

fun closest_loop :: "GSVector4i list \<Rightarrow> nat \<Rightarrow> nat \<Rightarrow> rat \<Rightarrow> GSVector4i \<Rightarrow> nat" where
  "closest_loop [] i candidate closest_dist rc = candidate"
| "closest_loop (r # rest) i candidate closest_dist rc =
     (let dist = RectDistance rc r
      in closest_loop rest (Suc i)
           (if dist < closest_dist then i else candidate)
           (if dist < closest_dist then dist else closest_dist) rc)"

text \<open>
  The slot the callback settles on for a page with at least one drawn rectangle.
  \<open>rects\<close> is the \<^verbatim>\<open>draw_rects\<close> array (four slots), \<open>n\<close> is \<^verbatim>\<open>num_draw_rects\<close>.
\<close>

definition select_candidate :: "GSVector4i list \<Rightarrow> nat \<Rightarrow> GSVector4i \<Rightarrow> GSVector4i \<Rightarrow> nat option" where
  "select_candidate rects n rc clip_rect =
     (case scan_draw_rects (take n rects) 0 n rc clip_rect of
        None \<Rightarrow> None
      | Some candidate \<Rightarrow>
          if candidate = NUM_PAGE_DRAW_RECTS
          then Some (closest_loop (drop 1 (take NUM_PAGE_DRAW_RECTS rects)) 1 0
                       (RectDistance rc (rects ! 0)) rc)
          else Some candidate)"

text \<open>What the specification asks for: the squared distance between the two centres.\<close>

definition centre_dist2 :: "GSVector4i \<Rightarrow> GSVector4i \<Rightarrow> rat" where
  "centre_dist2 a b =
     (let ax = (of_int (left a) + of_int (right a)) / 2; ay = (of_int (top_y a) + of_int (bottom a)) / 2;
          bx = (of_int (left b) + of_int (right b)) / 2; b_y = (of_int (top_y b) + of_int (bottom b)) / 2
      in (ax - bx) * (ax - bx) + (ay - b_y) * (ay - b_y))"

section \<open>Pages, tracked writes and sources\<close>

text \<open>
  Modelled from the spec: the geometry constants and helpers of \<^verbatim>\<open>gpu_types.h\<close> and
  \<^verbatim>\<open>gpu_hw_texture_cache.h\<close> are not among the sources. VRAM is 1024x512 halfwords,
  cut into 32 pages of 64x256 (16 across, 2 down); a 4-bit texture page spans 1 page, an
  8-bit one 2 and a 16-bit one 4; a palette register holds the palette's x position in
  units of 16 halfwords in its low 6 bits and its y position in the 9 bits above; a 4-bit
  palette has 16 entries and an 8-bit palette 256.
\<close>

type_synonym HashType = "64 word"

datatype GPUTextureMode = Palette4Bit | Palette8Bit | Direct16Bit | Reserved_Direct16Bit

definition VRAM_WIDTH :: nat where "VRAM_WIDTH = 1024"
definition VRAM_HEIGHT :: nat where "VRAM_HEIGHT = 512"
definition VRAM_PAGE_WIDTH :: nat where "VRAM_PAGE_WIDTH = 64"
definition VRAM_PAGE_HEIGHT :: nat where "VRAM_PAGE_HEIGHT = 256"
definition VRAM_PAGES_WIDE :: nat where "VRAM_PAGES_WIDE = 16"
definition VRAM_PAGE_X_MASK :: nat where "VRAM_PAGE_X_MASK = 15"
definition VRAM_PAGE_Y_MASK :: nat where "VRAM_PAGE_Y_MASK = 16"
definition MAX_CLUT_SIZE :: nat where "MAX_CLUT_SIZE = 256"

definition VRAMPageIndex :: "nat \<Rightarrow> nat \<Rightarrow> nat" where
  "VRAMPageIndex px py = py * VRAM_PAGES_WIDE + px"

definition VRAMPageStartX :: "nat \<Rightarrow> nat" where
  "VRAMPageStartX pn = (pn mod VRAM_PAGES_WIDE) * VRAM_PAGE_WIDTH"

definition VRAMPageStartY :: "nat \<Rightarrow> nat" where
  "VRAMPageStartY pn = (pn div VRAM_PAGES_WIDE) * VRAM_PAGE_HEIGHT"

definition VRAMPageRect :: "nat \<Rightarrow> GSVector4i" where
  "VRAMPageRect pn =
     GSVector4i (int (VRAMPageStartX pn)) (int (VRAMPageStartY pn))
                (int (VRAMPageStartX pn + VRAM_PAGE_WIDTH)) (int (VRAMPageStartY pn + VRAM_PAGE_HEIGHT))"

definition TextureModeHasPalette :: "GPUTextureMode \<Rightarrow> bool" where
  "TextureModeHasPalette m = (m = Palette4Bit \<or> m = Palette8Bit)"

definition TexturePageCountForMode :: "GPUTextureMode \<Rightarrow> nat" where
  "TexturePageCountForMode m = (case m of Palette4Bit \<Rightarrow> 1 | Palette8Bit \<Rightarrow> 2 | _ \<Rightarrow> 4)"

definition PalettePageCountForMode :: "GPUTextureMode \<Rightarrow> nat" where
  "PalettePageCountForMode m = (case m of Palette4Bit \<Rightarrow> 1 | _ \<Rightarrow> 4)"

definition GetPaletteWidth :: "GPUTextureMode \<Rightarrow> nat" where
  "GetPaletteWidth m = (case m of Palette4Bit \<Rightarrow> 16 | Palette8Bit \<Rightarrow> 256 | _ \<Rightarrow> 0)"

definition GetXBase :: "16 word \<Rightarrow> nat" where
  "GetXBase reg = unat (reg AND 63) * 16"

definition GetYBase :: "16 word \<Rightarrow> nat" where
  "GetYBase reg = unat (drop_bit 6 reg AND 511)"

definition PalettePageNumber :: "16 word \<Rightarrow> nat" where
  "PalettePageNumber reg = VRAMPageIndex (GetXBase reg div VRAM_PAGE_WIDTH) (GetYBase reg div VRAM_PAGE_HEIGHT)"

text \<open>
  \<^verbatim>\<open>LoopRectPages\<close> and \<^verbatim>\<open>LoopXWrappedPages\<close> call their callback on a sequence of page
  numbers; the model gives the sequence, in the order of the calls. The source asserts
  that the rectangle is not empty and lies inside VRAM; outside that range the unsigned
  arithmetic of the source is not reproduced.
\<close>

definition LoopRectPages :: "GSVector4i \<Rightarrow> nat list" where
  "LoopRectPages rc =
     (let start_x = nat (left rc) div VRAM_PAGE_WIDTH;
          end_x = nat (right rc - 1) div VRAM_PAGE_WIDTH;
          start_y = nat (top_y rc) div VRAM_PAGE_HEIGHT;
          end_y = nat (bottom rc - 1) div VRAM_PAGE_HEIGHT
      in concat (map (\<lambda>page_y. map (\<lambda>page_x. VRAMPageIndex page_x page_y) [start_x..<Suc end_x])
                     [start_y..<Suc end_y]))"

definition LoopXWrappedPages :: "nat \<Rightarrow> nat \<Rightarrow> nat list" where
  "LoopXWrappedPages pg num_pages =
     map (\<lambda>i. (pg AND VRAM_PAGE_Y_MASK) OR ((pg + i) AND VRAM_PAGE_X_MASK)) [0..<num_pages]"

text \<open>
  The structs of the cache. A pointer to a \<^verbatim>\<open>VRAMWrite\<close> or a \<^verbatim>\<open>Source\<close> is the number
  the object received when it was allocated; numbers are never reused, so a pointer to
  a deleted object stays distinguishable. An intrusive list is the list of the objects
  linked into it, head first, and the \<^verbatim>\<open>page_refs\<close> of an object are the numbers of the
  pages whose list holds one of its nodes.
\<close>

record SourceKey =
  page :: nat
  mode :: GPUTextureMode
  palette :: "16 word"

record PaletteRecord =
  prec_rect :: GSVector4i
  prec_key :: SourceKey
  prec_flags :: "8 word"
  prec_palette_hash :: HashType
  prec_palette :: "16 word list"

record VRAMWrite =
  active_rect :: GSVector4i
  write_rect :: GSVector4i
  hash :: HashType
  palette_records :: "PaletteRecord list"
  num_splits :: nat
  page_refs :: "nat list"

datatype HashCacheKey = HashCacheKey (hk_texture_hash: HashType) (hk_palette_hash: HashType) (hk_mode: HashType)

record Source =
  key :: SourceKey
  texture_hash :: HashType
  palette_hash :: HashType
  texture_rect :: GSVector4i
  palette_rect :: GSVector4i
  active_uv_rect :: GSVector4i
  palette_record_flags :: "8 word"
  from_hash_cache :: HashCacheKey
  src_page_refs :: "nat list"

text \<open>A GPU texture is known to the cache only through the memory it occupies.\<close>

record GPUTexture =
  GetVRAMUsage :: "64 word"

record HashCacheEntry =
  texture :: GPUTexture
  ref_count :: "32 word"
  last_used_frame :: "32 word"
  sources :: "nat list"

record PageEntry =
  pg_sources :: "nat list"
  writes :: "nat list"
  num_draw_rects :: nat
  total_draw_rect :: GSVector4i
  draw_rects :: "GSVector4i list"

text \<open>
  The module's static variables, the settings it reads and VRAM itself
  (\<^verbatim>\<open>g_vram\<close>, indexed by \<open>y * 1024 + x\<close>). The hash cache is an \<^verbatim>\<open>unordered_map\<close>; it is
  kept as the list of its (key, entry) pairs in iteration order, new entries last.
\<close>

record tc_state =
  s_pages :: "nat \<Rightarrow> PageEntry"
  vram_writes :: "nat \<rightharpoonup> VRAMWrite"
  live_sources :: "nat \<rightharpoonup> Source"
  next_object :: nat
  s_last_vram_write :: "nat option"
  s_hash_cache :: "(HashCacheKey \<times> HashCacheEntry) list"
  s_hash_cache_memory_usage :: "64 word"
  s_max_hash_cache_memory_usage :: "64 word"
  s_track_vram_writes :: bool
  g_vram :: "nat \<Rightarrow> 16 word"
  dump_textures :: bool
  dump_texture_pages :: bool
  max_vram_write_coalesce_width :: nat
  max_vram_write_coalesce_height :: nat
  max_vram_write_splits :: nat

text \<open>
  What the C++ leaves undefined is a value of the model: reading through a null
  pointer, reading through a pointer whose object has been deleted, reaching a
  \<^verbatim>\<open>DefaultCaseIsUnreachable\<close>, and indexing an array past its end.
\<close>

datatype fault = NullDereference | UseAfterFree | Unreachable | OutOfBounds

text \<open>
  The hash function \<^verbatim>\<open>XXH3_64bits\<close> of the xxHash library is a parameter \<open>xxh\<close> of every
  function that hashes: it maps the halfwords that are hashed to the 64-bit digest.
  Feeding the rows of a rectangle one after the other into a streaming state gives the
  digest of their concatenation.
\<close>

definition vram_row :: "(nat \<Rightarrow> 16 word) \<Rightarrow> nat \<Rightarrow> nat \<Rightarrow> 16 word list" where
  "vram_row vram start n = map (\<lambda>i. vram (start + i)) [0..<n]"

definition HashRect :: "(16 word list \<Rightarrow> HashType) \<Rightarrow> (nat \<Rightarrow> 16 word) \<Rightarrow> GSVector4i \<Rightarrow> HashType" where
  "HashRect xxh vram rc =
     xxh (concat (map (\<lambda>y. vram_row vram ((nat (top_y rc) + y) * VRAM_WIDTH + nat (left rc)) (nat (width rc)))
                      [0..<nat (height rc)]))"

definition VRAMPalettePointer :: "16 word \<Rightarrow> nat" where
  "VRAMPalettePointer reg = VRAM_WIDTH * GetYBase reg + GetXBase reg"

definition IsDumpingVRAMWriteTextures :: "tc_state \<Rightarrow> bool" where
  "IsDumpingVRAMWriteTextures s = (dump_textures s \<and> \<not> dump_texture_pages s)"

section \<open>The VRAM write tracker\<close>

definition InitializeVRAMWritePaletteRecord ::
  "(16 word list \<Rightarrow> HashType) \<Rightarrow> (nat \<Rightarrow> 16 word) \<Rightarrow> SourceKey \<Rightarrow> GSVector4i \<Rightarrow> 8 word \<Rightarrow> fault + PaletteRecord" where
  "InitializeVRAMWritePaletteRecord xxh vram source_key rect flags =
     (case mode source_key of
        Palette4Bit \<Rightarrow>
          (let pal = vram_row vram (VRAMPalettePointer (palette source_key)) 16
           in Inr \<lparr>prec_rect = rect, prec_key = source_key, prec_flags = flags,
                   prec_palette_hash = xxh pal,
                   prec_palette = pal @ replicate (MAX_CLUT_SIZE - 16) 0\<rparr>)
      | Palette8Bit \<Rightarrow>
          (let pal_width = min 256 (VRAM_WIDTH - GetXBase (palette source_key));
               pal = vram_row vram (VRAMPalettePointer (palette source_key)) pal_width
           in Inr \<lparr>prec_rect = rect, prec_key = source_key, prec_flags = flags,
                   prec_palette_hash = xxh pal,
                   prec_palette = pal @ replicate (MAX_CLUT_SIZE - pal_width) 0\<rparr>)
      | Direct16Bit \<Rightarrow>
          Inr \<lparr>prec_rect = rect, prec_key = source_key, prec_flags = flags,
                prec_palette_hash = 0, prec_palette = replicate MAX_CLUT_SIZE 0\<rparr>
      | Reserved_Direct16Bit \<Rightarrow> Inl Unreachable)"

text \<open>
  The \<^verbatim>\<open>find_if\<close> of \<^verbatim>\<open>UpdateVRAMWriteSources\<close> followed by the update of the record it
  found: \<open>None\<close> when no record has the key.
\<close>

fun update_palette_record ::
  "PaletteRecord list \<Rightarrow> SourceKey \<Rightarrow> GSVector4i \<Rightarrow> 8 word \<Rightarrow> PaletteRecord list option" where
  "update_palette_record [] source_key write_intersection flags = None"
| "update_palette_record (it # rest) source_key write_intersection flags =
     (if prec_key it = source_key
      then Some (it\<lparr>prec_rect := runion (prec_rect it) write_intersection,
                     prec_flags := prec_flags it OR flags\<rparr> # rest)
      else map_option ((#) it) (update_palette_record rest source_key write_intersection flags))"

definition UpdateVRAMWriteSources ::
  "(16 word list \<Rightarrow> HashType) \<Rightarrow> (nat \<Rightarrow> 16 word) \<Rightarrow> VRAMWrite \<Rightarrow> SourceKey \<Rightarrow> GSVector4i \<Rightarrow> 8 word
     \<Rightarrow> fault + VRAMWrite" where
  "UpdateVRAMWriteSources xxh vram entry source_key global_uv_rect flags =
     (let write_intersection = rintersect (active_rect entry) global_uv_rect
      in if rempty write_intersection then Inr entry
         else case update_palette_record (palette_records entry) source_key write_intersection flags of
                Some recs \<Rightarrow> Inr (entry\<lparr>palette_records := recs\<rparr>)
              | None \<Rightarrow>
                  (case InitializeVRAMWritePaletteRecord xxh vram source_key write_intersection flags of
                     Inl f \<Rightarrow> Inl f
                   | Inr record \<Rightarrow> Inr (entry\<lparr>palette_records := palette_records entry @ [record]\<rparr>)))"

text \<open>
  \<^verbatim>\<open>SyncVRAMWritePaletteRecords\<close>: the inner \<^verbatim>\<open>ListIterate\<close> over the sources of one page,
  and the outer loop over the pages of the write's active rectangle. The write is
  passed and returned as a value; the caller stores it back.
\<close>

fun sync_page_sources ::
  "(16 word list \<Rightarrow> HashType) \<Rightarrow> tc_state \<Rightarrow> nat list \<Rightarrow> VRAMWrite \<Rightarrow> fault + VRAMWrite" where
  "sync_page_sources xxh s [] entry = Inr entry"
| "sync_page_sources xxh s (n # rest) entry =
     (case live_sources s n of
        None \<Rightarrow> Inl UseAfterFree
      | Some src \<Rightarrow>
          if active_uv_rect src \<noteq> INVALID_RECT
          then (case UpdateVRAMWriteSources xxh (g_vram s) entry (key src) (active_uv_rect src)
                       (palette_record_flags src) of
                  Inl f \<Rightarrow> Inl f
                | Inr entry' \<Rightarrow> sync_page_sources xxh s rest entry')
          else sync_page_sources xxh s rest entry)"

fun sync_pages ::
  "(16 word list \<Rightarrow> HashType) \<Rightarrow> tc_state \<Rightarrow> nat list \<Rightarrow> VRAMWrite \<Rightarrow> fault + VRAMWrite" where
  "sync_pages xxh s [] entry = Inr entry"
| "sync_pages xxh s (pn # rest) entry =
     (case sync_page_sources xxh s (pg_sources (s_pages s pn)) entry of
        Inl f \<Rightarrow> Inl f
      | Inr entry' \<Rightarrow> sync_pages xxh s rest entry')"

definition SyncVRAMWritePaletteRecords ::
  "(16 word list \<Rightarrow> HashType) \<Rightarrow> tc_state \<Rightarrow> VRAMWrite \<Rightarrow> fault + VRAMWrite" where
  "SyncVRAMWritePaletteRecords xxh s entry =
     (if IsDumpingVRAMWriteTextures s
      then sync_pages xxh s (LoopRectPages (active_rect entry)) entry
      else Inr entry)"

text \<open>\<^verbatim>\<open>ListAppend\<close> and \<^verbatim>\<open>ListUnlink\<close> on the write list of a page.\<close>

definition append_write :: "nat \<Rightarrow> nat \<Rightarrow> tc_state \<Rightarrow> tc_state" where
  "append_write it pn s =
     s\<lparr>s_pages := (s_pages s)(pn := (s_pages s pn)\<lparr>writes := writes (s_pages s pn) @ [it]\<rparr>)\<rparr>"

definition unlink_write :: "nat \<Rightarrow> nat \<Rightarrow> tc_state \<Rightarrow> tc_state" where
  "unlink_write it pn s =
     s\<lparr>s_pages := (s_pages s)(pn := (s_pages s pn)\<lparr>writes := remove1 it (writes (s_pages s pn))\<rparr>)\<rparr>"

text \<open>
  The loop that every creator of a write runs over \<^verbatim>\<open>LoopRectPages\<close>: the write \<open>it\<close> is
  appended to the list of each page and the page is recorded in its \<^verbatim>\<open>page_refs\<close>.
\<close>

definition link_write_pages :: "nat \<Rightarrow> VRAMWrite \<Rightarrow> GSVector4i \<Rightarrow> tc_state \<Rightarrow> tc_state" where
  "link_write_pages it w rc s =
     (let s' = fold (append_write it) (LoopRectPages rc) s
      in s'\<lparr>vram_writes := (vram_writes s')(it \<mapsto> w\<lparr>page_refs := LoopRectPages rc\<rparr>)\<rparr>)"

text \<open>
  The remainder rectangles of \<^verbatim>\<open>SplitVRAMWrite\<close>, in the order of the array \<^verbatim>\<open>rects\<close>.
\<close>

definition split_rects :: "GSVector4i \<Rightarrow> GSVector4i \<Rightarrow> GSVector4i list" where
  "split_rects ar written_rect =
     (let to_left = left written_rect - left ar;
          to_right = right ar - right written_rect;
          to_top = top_y written_rect - top_y ar;
          to_bottom = bottom ar - bottom written_rect
      in if max to_top to_bottom > max to_left to_right
         then [GSVector4i (left ar) (top_y ar) (right ar) (top_y written_rect),
               GSVector4i (left ar) (bottom written_rect) (right ar) (bottom ar),
               GSVector4i (left ar) (top_y ar + to_top) (left ar + to_left) (bottom ar - to_bottom),
               GSVector4i (right ar - to_right) (top_y ar + to_top) (right ar) (bottom ar - to_bottom)]
         else [GSVector4i (left ar) (top_y ar) (left written_rect) (bottom ar),
               GSVector4i (right written_rect) (top_y ar) (right ar) (bottom ar),
               GSVector4i (left ar + to_left) (top_y ar + to_top) (right written_rect - to_right) (top_y ar - to_top),
               GSVector4i (left ar + to_left) (bottom ar - to_bottom) (right written_rect - to_right) (bottom ar)])"

text \<open>
  The body of the loop over \<^verbatim>\<open>rects\<close>: a new write for a non-empty remainder. The loop
  that copies palette records runs over the records of the new write \<open>it\<close>.
\<close>

definition split_new_write :: "VRAMWrite \<Rightarrow> GSVector4i \<Rightarrow> tc_state \<Rightarrow> tc_state" where
  "split_new_write entry splitr s =
     (if rempty splitr then s
      else let it = next_object s;
               w0 = \<lparr>active_rect = splitr, write_rect = write_rect entry, hash = hash entry,
                     palette_records = [], num_splits = num_splits entry, page_refs = []\<rparr>;
               w = w0\<lparr>palette_records :=
                        palette_records w0 @
                        filter (\<lambda>prec. rintersects (prec_rect prec) splitr) (palette_records w0)\<rparr>
           in link_write_pages it w splitr (s\<lparr>next_object := Suc it\<rparr>))"

definition SplitVRAMWrite ::
  "(16 word list \<Rightarrow> HashType) \<Rightarrow> tc_state \<Rightarrow> nat \<Rightarrow> GSVector4i \<Rightarrow> fault + tc_state" where
  "SplitVRAMWrite xxh s e written_rect =
     (case vram_writes s e of
        None \<Rightarrow> Inl UseAfterFree
      | Some entry0 \<Rightarrow>
          (case SyncVRAMWritePaletteRecords xxh s entry0 of
             Inl f \<Rightarrow> Inl f
           | Inr entry1 \<Rightarrow>
               (let entry = entry1\<lparr>num_splits := num_splits entry1 + 1\<rparr>;
                    s1 = s\<lparr>vram_writes := (vram_writes s)(e \<mapsto> entry)\<rparr>;
                    s2 = fold (split_new_write entry) (split_rects (active_rect entry) written_rect) s1;
                    s3 = fold (unlink_write e) (page_refs entry) s2
                in Inr (s3\<lparr>vram_writes := (vram_writes s3)(e := None)\<rparr>))))"

text \<open>
  \<^verbatim>\<open>TryMergeVRAMWrite\<close>. The check that no source has used the write runs
  \<^verbatim>\<open>ListIterateWithEarlyExit\<close> inside \<^verbatim>\<open>LoopRectPagesWithEarlyExit\<close>; \<open>Inr True\<close> means that
  the callback returned true throughout.
\<close>

fun merge_check_sources :: "tc_state \<Rightarrow> VRAMWrite \<Rightarrow> nat list \<Rightarrow> fault + bool" where
  "merge_check_sources s entry [] = Inr True"
| "merge_check_sources s entry (n # rest) =
     (case live_sources s n of
        None \<Rightarrow> Inl UseAfterFree
      | Some src \<Rightarrow>
          if active_uv_rect src \<noteq> INVALID_RECT \<or> \<not> rintersects (active_uv_rect src) (active_rect entry)
          then merge_check_sources s entry rest
          else Inr False)"

fun merge_check_pages :: "tc_state \<Rightarrow> VRAMWrite \<Rightarrow> nat list \<Rightarrow> fault + bool" where
  "merge_check_pages s entry [] = Inr True"
| "merge_check_pages s entry (pn # rest) =
     (case merge_check_sources s entry (pg_sources (s_pages s pn)) of
        Inl f \<Rightarrow> Inl f
      | Inr False \<Rightarrow> Inr False
      | Inr True \<Rightarrow> merge_check_pages s entry rest)"

definition TryMergeVRAMWrite ::
  "(16 word list \<Rightarrow> HashType) \<Rightarrow> tc_state \<Rightarrow> nat \<Rightarrow> GSVector4i \<Rightarrow> fault + bool \<times> tc_state" where
  "TryMergeVRAMWrite xxh s e written_rect =
     (case s_last_vram_write s of
        None \<Rightarrow> Inl NullDereference
      | Some l \<Rightarrow>
     (case vram_writes s l of
        None \<Rightarrow> Inl UseAfterFree
      | Some lastw \<Rightarrow>
          if num_splits lastw \<noteq> 0 then Inr (False, s)
          else
            (let coalesce_width = max_vram_write_coalesce_width s;
                 coalesce_height = max_vram_write_coalesce_height s;
                 merge_vertical = (nat (height written_rect) \<le> coalesce_height \<and>
                                   left (write_rect lastw) = left written_rect \<and>
                                   right (write_rect lastw) = right written_rect \<and>
                                   bottom (write_rect lastw) = top_y written_rect);
                 merge_horizontal = (nat (width written_rect) \<le> coalesce_width \<and>
                                     top_y (write_rect lastw) = top_y written_rect \<and>
                                     bottom (write_rect lastw) = bottom written_rect \<and>
                                     right (write_rect lastw) = left written_rect)
             in if \<not> merge_vertical \<and> \<not> merge_horizontal then Inr (False, s)
                else
                  (case vram_writes s e of
                     None \<Rightarrow> Inl UseAfterFree
                   | Some entry \<Rightarrow>
                       (case merge_check_pages s entry (LoopRectPages (active_rect entry)) of
                          Inl f \<Rightarrow> Inl f
                        | Inr False \<Rightarrow> Inr (False, s)
                        | Inr True \<Rightarrow>
                            (let s1 = fold (unlink_write e) (page_refs entry) s;
                                 new_rect = runion (write_rect entry) written_rect;
                                 entry' = entry\<lparr>active_rect := new_rect, write_rect := new_rect,
                                                hash := HashRect xxh (g_vram s) new_rect\<rparr>
                             in Inr (True, link_write_pages e entry' new_rect s1)))))))"

text \<open>
  \<^verbatim>\<open>RemoveVRAMWrite\<close>. When the write has been split and still holds palette records,
  the first write with the same hash on the pages of its \<^verbatim>\<open>write_rect\<close> receives them.
  The write itself is still linked at that point. \<^verbatim>\<open>DumpTexturesFromVRAMWrite\<close> only
  writes image files and leaves the cache as it is.
\<close>

fun find_write_with_hash :: "(nat \<rightharpoonup> VRAMWrite) \<Rightarrow> HashType \<Rightarrow> nat list \<Rightarrow> fault + nat option" where
  "find_write_with_hash ws h [] = Inr None"
| "find_write_with_hash ws h (cur # rest) =
     (case ws cur of
        None \<Rightarrow> Inl UseAfterFree
      | Some w \<Rightarrow> if hash w \<noteq> h then find_write_with_hash ws h rest else Inr (Some cur))"

fun find_other_write :: "tc_state \<Rightarrow> HashType \<Rightarrow> nat list \<Rightarrow> fault + nat option" where
  "find_other_write s h [] = Inr None"
| "find_other_write s h (pn # rest) =
     (case find_write_with_hash (vram_writes s) h (writes (s_pages s pn)) of
        Inl f \<Rightarrow> Inl f
      | Inr (Some other_write) \<Rightarrow> Inr (Some other_write)
      | Inr None \<Rightarrow> find_other_write s h rest)"

fun merge_palette_record :: "PaletteRecord \<Rightarrow> PaletteRecord list \<Rightarrow> PaletteRecord list" where
  "merge_palette_record prec [] = [prec]"
| "merge_palette_record prec (it # rest) =
     (if prec_key it = prec_key prec
      then it\<lparr>prec_rect := runion (prec_rect it) (prec_rect prec)\<rparr> # rest
      else it # merge_palette_record prec rest)"

definition RemoveVRAMWrite :: "(16 word list \<Rightarrow> HashType) \<Rightarrow> tc_state \<Rightarrow> nat \<Rightarrow> fault + tc_state" where
  "RemoveVRAMWrite xxh s e =
     (case vram_writes s e of
        None \<Rightarrow> Inl UseAfterFree
      | Some entry0 \<Rightarrow>
     (case SyncVRAMWritePaletteRecords xxh s entry0 of
        Inl f \<Rightarrow> Inl f
      | Inr entry \<Rightarrow>
     (let s1 = s\<lparr>vram_writes := (vram_writes s)(e \<mapsto> entry)\<rparr>
      in case (if num_splits entry > 0 \<and> palette_records entry \<noteq> []
               then (case find_other_write s1 (hash entry) (LoopRectPages (write_rect entry)) of
                       Inl f \<Rightarrow> Inl f
                     | Inr None \<Rightarrow> Inr s1
                     | Inr (Some other_write) \<Rightarrow>
                         (case vram_writes s1 other_write of
                            None \<Rightarrow> Inl UseAfterFree
                          | Some ow \<Rightarrow>
                              (let ow' = ow\<lparr>palette_records :=
                                               fold merge_palette_record (palette_records entry) (palette_records ow)\<rparr>;
                                   ws = (vram_writes s1)(other_write \<mapsto> ow')
                               in Inr (s1\<lparr>vram_writes := ws(e \<mapsto> entry\<lparr>palette_records := []\<rparr>)\<rparr>))))
               else Inr s1) of
           Inl f \<Rightarrow> Inl f
         | Inr s2 \<Rightarrow>
             (let s3 = fold (unlink_write e) (page_refs entry) s2;
                  s4 = s3\<lparr>s_last_vram_write :=
                            (if s_last_vram_write s3 = Some e then None else s_last_vram_write s3)\<rparr>
              in Inr (s4\<lparr>vram_writes := (vram_writes s4)(e := None)\<rparr>)))))"

text \<open>
  \<^verbatim>\<open>WriteVRAM\<close>. The rasterizer's write into VRAM comes first; \<open>vram'\<close> is the content of
  VRAM after it.
\<close>

definition WriteVRAM ::
  "(16 word list \<Rightarrow> HashType) \<Rightarrow> tc_state \<Rightarrow> GSVector4i \<Rightarrow> (nat \<Rightarrow> 16 word) \<Rightarrow> fault + tc_state" where
  "WriteVRAM xxh s bounds vram' =
     (let s0 = s\<lparr>g_vram := vram'\<rparr>
      in if \<not> s_track_vram_writes s0 then Inr s0
         else case (case s_last_vram_write s0 of
                      None \<Rightarrow> Inr (False, s0)
                    | Some l \<Rightarrow> TryMergeVRAMWrite xxh s0 l bounds) of
                Inl f \<Rightarrow> Inl f
              | Inr (True, s1) \<Rightarrow> Inr s1
              | Inr (False, s1) \<Rightarrow>
                  (let it = next_object s1;
                       w = \<lparr>active_rect = bounds, write_rect = bounds,
                            hash = HashRect xxh (g_vram s1) bounds,
                            palette_records = [], num_splits = 0, page_refs = []\<rparr>;
                       s2 = link_write_pages it w bounds (s1\<lparr>next_object := Suc it\<rparr>)
                   in Inr (s2\<lparr>s_last_vram_write := Some it\<rparr>)))"

section \<open>Sources and the hash cache\<close>

text \<open>
  Modelled from the spec: \<^verbatim>\<open>GetTextureRect\<close> and \<^verbatim>\<open>GetPaletteRect\<close> are declared in
  \<^verbatim>\<open>gpu_hw_texture_cache.h\<close>, which is not among the sources. The texture footprint of
  a source is 64, 128 or 256 halfwords wide by bit depth and one page high (the whole
  row of pages when it would cross the right edge), and its palette footprint is one row
  of 16 or 256 halfwords, clamped to the right edge of VRAM.
\<close>

definition GetTextureRect :: "nat \<Rightarrow> GPUTextureMode \<Rightarrow> GSVector4i" where
  "GetTextureRect pn m =
     (let l = VRAMPageStartX pn; t = VRAMPageStartY pn;
          r = l + TexturePageCountForMode m * VRAM_PAGE_WIDTH; b = t + VRAM_PAGE_HEIGHT
      in if r > VRAM_WIDTH then GSVector4i 0 (int t) (int VRAM_WIDTH) (int b)
         else GSVector4i (int l) (int t) (int r) (int b))"

definition GetPaletteRect :: "16 word \<Rightarrow> GPUTextureMode \<Rightarrow> GSVector4i" where
  "GetPaletteRect reg m =
     (let l = GetXBase reg; t = GetYBase reg; r = l + GetPaletteWidth m
      in GSVector4i (int l) (int t) (int (min r VRAM_WIDTH)) (int (t + 1)))"

definition VRAMPagePointer :: "nat \<Rightarrow> nat" where
  "VRAMPagePointer pn = VRAMPageStartY pn * VRAM_WIDTH + VRAMPageStartX pn"

definition HashPage :: "(16 word list \<Rightarrow> HashType) \<Rightarrow> (nat \<Rightarrow> 16 word) \<Rightarrow> nat \<Rightarrow> GPUTextureMode \<Rightarrow> fault + HashType" where
  "HashPage xxh vram pg m =
     (let rows = (\<lambda>n. concat (map (\<lambda>y. vram_row vram (VRAMPagePointer pg + y * VRAM_WIDTH) n)
                                    [0..<VRAM_PAGE_HEIGHT]))
      in case m of
           Palette4Bit \<Rightarrow> Inr (xxh (rows VRAM_PAGE_WIDTH))
         | Palette8Bit \<Rightarrow> Inr (xxh (rows (VRAM_PAGE_WIDTH * 2)))
         | Direct16Bit \<Rightarrow> Inr (xxh (rows (VRAM_PAGE_WIDTH * 4)))
         | Reserved_Direct16Bit \<Rightarrow> Inl Unreachable)"

definition HashPalette :: "(16 word list \<Rightarrow> HashType) \<Rightarrow> (nat \<Rightarrow> 16 word) \<Rightarrow> 16 word \<Rightarrow> GPUTextureMode \<Rightarrow> fault + HashType" where
  "HashPalette xxh vram reg m =
     (let x_base = GetXBase reg; base = VRAMPalettePointer reg
      in case m of
           Palette4Bit \<Rightarrow> Inr (xxh (vram_row vram base 16))
         | Palette8Bit \<Rightarrow>
             if x_base + 256 > VRAM_WIDTH then Inr (xxh (vram_row vram base (VRAM_WIDTH - x_base)))
             else Inr (xxh (vram_row vram base 256))
         | _ \<Rightarrow> Inl Unreachable)"

text \<open>The numeric value of a texture mode, as the casts of the source produce it.\<close>

definition mode_value :: "GPUTextureMode \<Rightarrow> nat" where
  "mode_value m = (case m of Palette4Bit \<Rightarrow> 0 | Palette8Bit \<Rightarrow> 1 | Direct16Bit \<Rightarrow> 2 | Reserved_Direct16Bit \<Rightarrow> 3)"

text \<open>Changing the entry stored under a key of the hash cache, through a pointer to it.\<close>

definition update_entry ::
  "HashCacheKey \<Rightarrow> (HashCacheEntry \<Rightarrow> HashCacheEntry) \<Rightarrow> (HashCacheKey \<times> HashCacheEntry) list
     \<Rightarrow> (HashCacheKey \<times> HashCacheEntry) list" where
  "update_entry k f cache = map (\<lambda>(k', e). if k' = k then (k', f e) else (k', e)) cache"

text \<open>
  \<^verbatim>\<open>LookupHashCache\<close>. \<open>tex\<close> is what the GPU device hands out on a miss: \<open>None\<close> when
  \<^verbatim>\<open>FetchTexture\<close> fails, otherwise the texture that ends up in the entry once the page
  has been decoded into it and the replacements have been applied. The result is the
  pointer to the entry, given by its key, or \<open>None\<close> for the null pointer.
\<close>

definition LookupHashCache ::
  "tc_state \<Rightarrow> SourceKey \<Rightarrow> HashType \<Rightarrow> HashType \<Rightarrow> GPUTexture option \<Rightarrow> HashCacheKey option \<times> tc_state" where
  "LookupHashCache s k tex_hash pal_hash tex =
     (let hkey = HashCacheKey tex_hash pal_hash (of_nat (mode_value (mode k)))
      in case map_of (s_hash_cache s) hkey of
           Some e \<Rightarrow> (Some hkey, s)
         | None \<Rightarrow>
             (case tex of
                None \<Rightarrow> (None, s)
              | Some t \<Rightarrow>
                  (let entry = \<lparr>texture = t, ref_count = 0, last_used_frame = 0, sources = []\<rparr>
                   in (Some hkey,
                       s\<lparr>s_hash_cache_memory_usage := s_hash_cache_memory_usage s + GetVRAMUsage t,
                         s_hash_cache := s_hash_cache s @ [(hkey, entry)]\<rparr>))))"

text \<open>
  The two callbacks of \<^verbatim>\<open>CreateSource\<close> that register the source on a page, unless the
  page is among its references already: at the front of the list for the pages of the
  texture, at the back for the pages of the palette.
\<close>

definition add_page_ref :: "nat \<Rightarrow> nat \<Rightarrow> nat list \<times> tc_state \<Rightarrow> nat list \<times> tc_state" where
  "add_page_ref src pn acc =
     (case acc of (page_refns, s) \<Rightarrow>
        if pn \<in> set page_refns then acc
        else (page_refns @ [pn],
              s\<lparr>s_pages := (s_pages s)(pn := (s_pages s pn)\<lparr>pg_sources := src # pg_sources (s_pages s pn)\<rparr>)\<rparr>))"

definition add_page_ref_back :: "nat \<Rightarrow> nat \<Rightarrow> nat list \<times> tc_state \<Rightarrow> nat list \<times> tc_state" where
  "add_page_ref_back src pn acc =
     (case acc of (page_refns, s) \<Rightarrow>
        if pn \<in> set page_refns then acc
        else (page_refns @ [pn],
              s\<lparr>s_pages := (s_pages s)(pn := (s_pages s pn)\<lparr>pg_sources := pg_sources (s_pages s pn) @ [src]\<rparr>)\<rparr>))"

definition CreateSource ::
  "(16 word list \<Rightarrow> HashType) \<Rightarrow> tc_state \<Rightarrow> SourceKey \<Rightarrow> GPUTexture option \<Rightarrow> fault + nat option \<times> tc_state" where
  "CreateSource xxh s k tex =
     (case HashPage xxh (g_vram s) (page k) (mode k) of
        Inl f \<Rightarrow> Inl f
      | Inr tex_hash \<Rightarrow>
     (case (if TextureModeHasPalette (mode k) then HashPalette xxh (g_vram s) (palette k) (mode k) else Inr 0) of
        Inl f \<Rightarrow> Inl f
      | Inr pal_hash \<Rightarrow>
     (case LookupHashCache s k tex_hash pal_hash tex of
        (None, s1) \<Rightarrow> Inr (None, s1)
      | (Some hcentry, s1) \<Rightarrow>
          (let src = next_object s1;
               s2 = s1\<lparr>next_object := Suc src,
                       s_hash_cache := update_entry hcentry
                          (\<lambda>e. e\<lparr>ref_count := ref_count e + 1, sources := sources e @ [src]\<rparr>)
                          (s_hash_cache s1)\<rparr>;
               (refs1, s3) = fold (add_page_ref src)
                               (LoopXWrappedPages (page k) (TexturePageCountForMode (mode k))) ([], s2);
               (refs2, s4) = (if TextureModeHasPalette (mode k)
                              then fold (add_page_ref_back src)
                                     (LoopXWrappedPages (PalettePageNumber (palette k))
                                        (PalettePageCountForMode (mode k))) (refs1, s3)
                              else (refs1, s3));
               new_source = \<lparr>key = k, texture_hash = tex_hash, palette_hash = pal_hash,
                             texture_rect = GetTextureRect (page k) (mode k),
                             palette_rect = (if TextureModeHasPalette (mode k)
                                             then GetPaletteRect (palette k) (mode k)
                                             else GSVector4i 0 0 0 0),
                             active_uv_rect = INVALID_RECT, palette_record_flags = 0,
                             from_hash_cache = hcentry, src_page_refs = refs2\<rparr>
           in Inr (Some src, s4\<lparr>live_sources := (live_sources s4)(src \<mapsto> new_source)\<rparr>)))))"

text \<open>
  \<^verbatim>\<open>ReturnSource\<close>. \<open>frame\<close> is \<^verbatim>\<open>System::GetFrameNumber()\<close>. The source pointer is read
  without a check.
\<close>

definition ReturnSource ::
  "tc_state \<Rightarrow> nat option \<Rightarrow> GSVector4i \<Rightarrow> 8 word \<Rightarrow> 32 word \<Rightarrow> fault + nat \<times> tc_state" where
  "ReturnSource s source uv_rect flags frame =
     (case source of
        None \<Rightarrow> Inl NullDereference
      | Some n \<Rightarrow>
     (case live_sources s n of
        None \<Rightarrow> Inl UseAfterFree
      | Some src \<Rightarrow>
     (case map_of (s_hash_cache s) (from_hash_cache src) of
        None \<Rightarrow> Inl UseAfterFree
      | Some e \<Rightarrow>
          (let s1 = s\<lparr>s_hash_cache := update_entry (from_hash_cache src)
                                         (\<lambda>e. e\<lparr>last_used_frame := frame\<rparr>) (s_hash_cache s)\<rparr>;
               s2 = (if dump_textures s1
                     then s1\<lparr>live_sources := (live_sources s1)(n \<mapsto>
                               src\<lparr>active_uv_rect := runion (active_uv_rect src) uv_rect,
                                   palette_record_flags := palette_record_flags src OR flags\<rparr>)\<rparr>
                     else s1)
           in Inr (n, s2)))))"

text \<open>
  \<^verbatim>\<open>LookupSource\<close>: the scan of the source list of the key's page, \<^verbatim>\<open>ListMoveToFront\<close> on
  a hit (nothing moves when the node is the head already), and \<^verbatim>\<open>CreateSource\<close> on a
  miss.
\<close>

fun find_source :: "(nat \<rightharpoonup> Source) \<Rightarrow> SourceKey \<Rightarrow> nat list \<Rightarrow> fault + nat option" where
  "find_source srcs k [] = Inr None"
| "find_source srcs k (n # rest) =
     (case srcs n of
        None \<Rightarrow> Inl UseAfterFree
      | Some src \<Rightarrow> if key src = k then Inr (Some n) else find_source srcs k rest)"

definition ListMoveToFront :: "nat \<Rightarrow> nat list \<Rightarrow> nat list" where
  "ListMoveToFront n xs =
     (case xs of [] \<Rightarrow> [] | x # rest \<Rightarrow> if x = n then xs else n # remove1 n xs)"

definition LookupSource ::
  "(16 word list \<Rightarrow> HashType) \<Rightarrow> tc_state \<Rightarrow> SourceKey \<Rightarrow> GSVector4i \<Rightarrow> 8 word \<Rightarrow> GPUTexture option \<Rightarrow> 32 word
     \<Rightarrow> fault + nat \<times> tc_state" where
  "LookupSource xxh s k rect flags tex frame =
     (case find_source (live_sources s) k (pg_sources (s_pages s (page k))) of
        Inl f \<Rightarrow> Inl f
      | Inr (Some n) \<Rightarrow>
          (let pg = s_pages s (page k);
               s1 = s\<lparr>s_pages := (s_pages s)(page k := pg\<lparr>pg_sources := ListMoveToFront n (pg_sources pg)\<rparr>)\<rparr>
           in ReturnSource s1 (Some n) rect flags frame)
      | Inr None \<Rightarrow>
          (case CreateSource xxh s k tex of
             Inl f \<Rightarrow> Inl f
           | Inr (source, s1) \<Rightarrow> ReturnSource s1 source rect flags frame))"

text \<open>
  \<^verbatim>\<open>DestroySource\<close>. With dumping of VRAM-write textures on, the sampled area of the
  source is first handed to every write on the pages it covers;
  \<^verbatim>\<open>DumpTextureFromPage\<close> only writes image files.
\<close>

fun destroy_update_writes ::
  "(16 word list \<Rightarrow> HashType) \<Rightarrow> Source \<Rightarrow> nat list \<Rightarrow> tc_state \<Rightarrow> fault + tc_state" where
  "destroy_update_writes xxh src [] s = Inr s"
| "destroy_update_writes xxh src (vw # rest) s =
     (case vram_writes s vw of
        None \<Rightarrow> Inl UseAfterFree
      | Some w \<Rightarrow>
          (case UpdateVRAMWriteSources xxh (g_vram s) w (key src) (active_uv_rect src) (palette_record_flags src) of
             Inl f \<Rightarrow> Inl f
           | Inr w' \<Rightarrow> destroy_update_writes xxh src rest (s\<lparr>vram_writes := (vram_writes s)(vw \<mapsto> w')\<rparr>)))"

fun destroy_update_pages ::
  "(16 word list \<Rightarrow> HashType) \<Rightarrow> Source \<Rightarrow> nat list \<Rightarrow> tc_state \<Rightarrow> fault + tc_state" where
  "destroy_update_pages xxh src [] s = Inr s"
| "destroy_update_pages xxh src (pn # rest) s =
     (case destroy_update_writes xxh src (writes (s_pages s pn)) s of
        Inl f \<Rightarrow> Inl f
      | Inr s' \<Rightarrow> destroy_update_pages xxh src rest s')"

definition unlink_source :: "nat \<Rightarrow> nat \<Rightarrow> tc_state \<Rightarrow> tc_state" where
  "unlink_source n pn s =
     s\<lparr>s_pages := (s_pages s)(pn := (s_pages s pn)\<lparr>pg_sources := remove1 n (pg_sources (s_pages s pn))\<rparr>)\<rparr>"

definition DestroySource :: "(16 word list \<Rightarrow> HashType) \<Rightarrow> nat \<Rightarrow> tc_state \<Rightarrow> fault + tc_state" where
  "DestroySource xxh n s =
     (case live_sources s n of
        None \<Rightarrow> Inl UseAfterFree
      | Some src \<Rightarrow>
     (case (if dump_textures s \<and> active_uv_rect src \<noteq> INVALID_RECT \<and> \<not> dump_texture_pages s
            then destroy_update_pages xxh src (LoopRectPages (active_uv_rect src)) s
            else Inr s) of
        Inl f \<Rightarrow> Inl f
      | Inr s1 \<Rightarrow>
     (let s2 = fold (unlink_source n) (src_page_refs src) s1
      in case map_of (s_hash_cache s2) (from_hash_cache src) of
           None \<Rightarrow> Inl UseAfterFree
         | Some e \<Rightarrow>
             Inr (s2\<lparr>s_hash_cache := update_entry (from_hash_cache src)
                                        (\<lambda>e. e\<lparr>sources := remove1 n (sources e), ref_count := ref_count e - 1\<rparr>)
                                        (s_hash_cache s2),
                      live_sources := (live_sources s2)(n := None)\<rparr>))))"

text \<open>
  Running \<^verbatim>\<open>DestroySource\<close> over the sources that a list held when the loop started;
  every loop of the source that destroys takes the next node before it destroys.
\<close>

fun destroy_sources :: "(16 word list \<Rightarrow> HashType) \<Rightarrow> nat list \<Rightarrow> tc_state \<Rightarrow> fault + tc_state" where
  "destroy_sources xxh [] s = Inr s"
| "destroy_sources xxh (n # rest) s =
     (case DestroySource xxh n s of Inl f \<Rightarrow> Inl f | Inr s' \<Rightarrow> destroy_sources xxh rest s')"

text \<open>\<^verbatim>\<open>InvalidatePageSources(pn, rc)\<close>: the sources of the page that \<open>rc\<close> touches.\<close>

fun invalidate_sources_rect ::
  "(16 word list \<Rightarrow> HashType) \<Rightarrow> GSVector4i \<Rightarrow> nat list \<Rightarrow> tc_state \<Rightarrow> fault + tc_state" where
  "invalidate_sources_rect xxh rc [] s = Inr s"
| "invalidate_sources_rect xxh rc (n # rest) s =
     (case live_sources s n of
        None \<Rightarrow> Inl UseAfterFree
      | Some src \<Rightarrow>
          if \<not> rintersects (texture_rect src) rc \<and>
             (mode (key src) = Direct16Bit \<or> \<not> rintersects (palette_rect src) rc)
          then invalidate_sources_rect xxh rc rest s
          else (case DestroySource xxh n s of
                  Inl f \<Rightarrow> Inl f
                | Inr s' \<Rightarrow> invalidate_sources_rect xxh rc rest s'))"

definition InvalidatePageSources_rect ::
  "(16 word list \<Rightarrow> HashType) \<Rightarrow> nat \<Rightarrow> GSVector4i \<Rightarrow> tc_state \<Rightarrow> fault + tc_state" where
  "InvalidatePageSources_rect xxh pn rc s = invalidate_sources_rect xxh rc (pg_sources (s_pages s pn)) s"

text \<open>
  \<^verbatim>\<open>RemoveFromHashCache\<close>: the iterator is given by the key of the entry it points to.
\<close>

definition RemoveFromHashCache :: "(16 word list \<Rightarrow> HashType) \<Rightarrow> HashCacheKey \<Rightarrow> tc_state \<Rightarrow> fault + tc_state" where
  "RemoveFromHashCache xxh it s =
     (case map_of (s_hash_cache s) it of
        None \<Rightarrow> Inl UseAfterFree
      | Some e0 \<Rightarrow>
          (case destroy_sources xxh (sources e0) s of
             Inl f \<Rightarrow> Inl f
           | Inr s1 \<Rightarrow>
               (case map_of (s_hash_cache s1) it of
                  None \<Rightarrow> Inl UseAfterFree
                | Some e \<Rightarrow>
                    Inr (s1\<lparr>s_hash_cache_memory_usage := s_hash_cache_memory_usage s1 - GetVRAMUsage (texture e),
                             s_hash_cache := filter (\<lambda>(k, _). k \<noteq> it) (s_hash_cache s1)\<rparr>))))"

text \<open>
  \<^verbatim>\<open>Compact\<close>, run once per frame. \<open>over_budget\<close> is the condition that the source
  evaluates three times. The first loop visits the entries that the cache holds when it
  starts; the purge list pairs an iterator with the last-used frame read as a signed
  number. \<^verbatim>\<open>std::sort\<close> leaves the order of entries with the same frame open; the model
  keeps them in the order of the list.
\<close>

definition MAX_HASH_CACHE_AGE :: "32 word" where "MAX_HASH_CACHE_AGE = 600"
definition MAX_HASH_CACHE_SIZE :: nat where "MAX_HASH_CACHE_SIZE = 500"

definition over_budget :: "tc_state \<Rightarrow> bool" where
  "over_budget s =
     (length (s_hash_cache s) > MAX_HASH_CACHE_SIZE \<or>
      s_hash_cache_memory_usage s \<ge> s_max_hash_cache_memory_usage s)"

fun compact_loop ::
  "(16 word list \<Rightarrow> HashType) \<Rightarrow> 32 word \<Rightarrow> HashCacheKey list \<Rightarrow> bool \<times> (HashCacheKey \<times> int) list \<times> tc_state
     \<Rightarrow> fault + bool \<times> (HashCacheKey \<times> int) list \<times> tc_state" where
  "compact_loop xxh min_frame_number [] acc = Inr acc"
| "compact_loop xxh min_frame_number (it # rest) (might_need_cache_purge, purge_list, s) =
     (case map_of (s_hash_cache s) it of
        None \<Rightarrow> Inl UseAfterFree
      | Some e \<Rightarrow>
          if ref_count e = 0 \<and> last_used_frame e < min_frame_number
          then (case RemoveFromHashCache xxh it s of
                  Inl f \<Rightarrow> Inl f
                | Inr s' \<Rightarrow> compact_loop xxh min_frame_number rest (might_need_cache_purge, purge_list, s'))
          else if might_need_cache_purge
          then (if over_budget s
                then compact_loop xxh min_frame_number rest
                       (True, purge_list @ [(it, sint (last_used_frame e))], s)
                else compact_loop xxh min_frame_number rest (False, purge_list, s))
          else compact_loop xxh min_frame_number rest (False, purge_list, s))"

fun purge_loop :: "(16 word list \<Rightarrow> HashType) \<Rightarrow> (HashCacheKey \<times> int) list \<Rightarrow> tc_state \<Rightarrow> fault + tc_state" where
  "purge_loop xxh [] s = Inr s"
| "purge_loop xxh (p # rest) s =
     (if over_budget s
      then (case RemoveFromHashCache xxh (fst p) s of
              Inl f \<Rightarrow> Inl f
            | Inr s' \<Rightarrow> purge_loop xxh rest s')
      else Inr s)"

definition Compact :: "(16 word list \<Rightarrow> HashType) \<Rightarrow> 32 word \<Rightarrow> tc_state \<Rightarrow> fault + tc_state" where
  "Compact xxh frame_number s =
     (let min_frame_number = (if frame_number > MAX_HASH_CACHE_AGE then frame_number - MAX_HASH_CACHE_AGE else 0)
      in case compact_loop xxh min_frame_number (map fst (s_hash_cache s)) (over_budget s, [], s) of
           Inl f \<Rightarrow> Inl f
         | Inr (might_need_cache_purge, purge_list, s1) \<Rightarrow>
             if might_need_cache_purge then purge_loop xxh (sort_key snd purge_list) s1 else Inr s1)"

text \<open>
  The back pointers of the cache: a live source that an entry lists in \<open>sources\<close> has
  that entry as its \<open>from_hash_cache\<close>. \<^verbatim>\<open>CreateSource\<close> establishes it for the
  source it links, and \<^verbatim>\<open>DestroySource\<close> unlinks a source from the entry it points to.
\<close>

definition cache_links_ok :: "tc_state \<Rightarrow> bool" where
  "cache_links_ok s =
     (\<forall>k e n src. map_of (s_hash_cache s) k = Some e \<and> n \<in> set (sources e) \<and>
                  live_sources s n = Some src \<longrightarrow> from_hash_cache src = k)"

text \<open>
  Three more properties of the bookkeeping, which lookups, the destruction of a source
  and compaction keep.
  Object numbers are handed out in increasing order, so a live source has a number below
  \<open>next_object\<close>. A page lists a source at most once, and only a live source that has
  the page among its page references. A live source is listed by the hash cache entry
  that it points to.
\<close>

definition ids_fresh :: "tc_state \<Rightarrow> bool" where
  "ids_fresh s = (\<forall>m. live_sources s m \<noteq> None \<longrightarrow> m < next_object s)"

definition pages_ok :: "tc_state \<Rightarrow> bool" where
  "pages_ok s =
     (\<forall>pn. distinct (pg_sources (s_pages s pn)) \<and>
           (\<forall>m \<in> set (pg_sources (s_pages s pn)).
              \<exists>src. live_sources s m = Some src \<and> pn \<in> set (src_page_refs src)))"

definition sources_listed :: "tc_state \<Rightarrow> bool" where
  "sources_listed s =
     (\<forall>m src. live_sources s m = Some src \<longrightarrow>
        (\<exists>e. map_of (s_hash_cache s) (from_hash_cache src) = Some e \<and> m \<in> set (sources e)))"

definition tracking_ok :: "tc_state \<Rightarrow> bool" where
  "tracking_ok s = (ids_fresh s \<and> pages_ok s \<and> sources_listed s)"

text \<open>
  \<open>is_source_for s k n\<close>: the bookkeeping is sound and the scan of \<^verbatim>\<open>LookupSource\<close> over
  the page of \<open>k\<close> stops at the source \<open>n\<close>.
\<close>

definition is_source_for :: "tc_state \<Rightarrow> SourceKey \<Rightarrow> nat \<Rightarrow> bool" where
  "is_source_for s k n =
     (tracking_ok s \<and> find_source (live_sources s) k (pg_sources (s_pages s (page k))) = Inr (Some n))"

text \<open>
  The entry points that do not write to VRAM, as a caller runs them one after the
  other: a lookup of some key, or the compaction at the end of a frame. A fault of one
  of them ends the run.
\<close>

datatype cache_op =
    Lookup SourceKey GSVector4i "8 word" "GPUTexture option" "32 word"
  | CompactCache "32 word"

fun run_ops :: "(16 word list \<Rightarrow> HashType) \<Rightarrow> cache_op list \<Rightarrow> tc_state \<Rightarrow> fault + tc_state" where
  "run_ops xxh [] s = Inr s"
| "run_ops xxh (Lookup k rect flags tex frame # ops) s =
     (case LookupSource xxh s k rect flags tex frame of
        Inl f \<Rightarrow> Inl f
      | Inr (n, s') \<Rightarrow> run_ops xxh ops s')"
| "run_ops xxh (CompactCache frame # ops) s =
     (case Compact xxh frame s of
        Inl f \<Rightarrow> Inl f
      | Inr s' \<Rightarrow> run_ops xxh ops s')"

section \<open>Written and drawn rectangles\<close>

text \<open>
  \<^verbatim>\<open>AddWrittenRectangle\<close>, page by page. The loop over the drawn rectangles removes the
  ones that the written rectangle touches and closes the gap with \<^verbatim>\<open>memmove\<close>.
\<close>

definition memmove_rects :: "GSVector4i list \<Rightarrow> nat \<Rightarrow> nat \<Rightarrow> GSVector4i list" where
  "memmove_rects rs i k = take i rs @ take k (drop (Suc i) rs) @ drop (i + k) rs"

function clear_draw_rects :: "GSVector4i \<Rightarrow> nat \<Rightarrow> nat \<Rightarrow> GSVector4i list \<Rightarrow> nat \<times> GSVector4i list" where
  "clear_draw_rects rect i n rs =
     (if i < n
      then (if \<not> rintersects (rs ! i) rect then clear_draw_rects rect (Suc i) n rs
            else clear_draw_rects rect i (n - 1)
                   (if n - 1 > 0 \<and> n - 1 - i > 0 then memmove_rects rs i (n - 1 - i) else rs))
      else (n, rs))"
  by pat_completeness auto
termination
  by (relation "measure (\<lambda>(rect, i, n, rs). n - i)") auto

definition written_clear_draw_rects :: "GSVector4i \<Rightarrow> PageEntry \<Rightarrow> PageEntry" where
  "written_clear_draw_rects rect pg =
     (if num_draw_rects pg > 0
      then (case clear_draw_rects rect 0 (num_draw_rects pg) (draw_rects pg) of
              (n, rs) \<Rightarrow>
                (let pg1 = pg\<lparr>num_draw_rects := n, draw_rects := rs\<rparr>
                 in if n \<noteq> num_draw_rects pg
                    then (if n = 0 then pg1\<lparr>total_draw_rect := INVALID_RECT\<rparr>
                          else pg1\<lparr>total_draw_rect := fold (\<lambda>r acc. runion acc r) (drop 1 (take n rs)) (rs ! 0)\<rparr>)
                    else pg1))
      else pg)"

text \<open>
  The loop over the writes of the page. It walks the list that the page holds when the
  loop starts: a split appends its remainders to the list, but they lie outside the
  written rectangle and are passed over when the walk reaches them.
\<close>

fun written_writes_loop ::
  "(16 word list \<Rightarrow> HashType) \<Rightarrow> GSVector4i \<Rightarrow> bool \<Rightarrow> nat list \<Rightarrow> tc_state \<Rightarrow> fault + tc_state" where
  "written_writes_loop xxh rect update_vram_writes [] s = Inr s"
| "written_writes_loop xxh rect update_vram_writes (it # rest) s =
     (case vram_writes s it of
        None \<Rightarrow> Inl UseAfterFree
      | Some w \<Rightarrow>
          (let intersection = rintersect (active_rect w) rect
           in if \<not> rempty intersection
              then (case (if update_vram_writes \<and> rcontains (active_rect w) rect
                          then Inr (s\<lparr>vram_writes := (vram_writes s)(it \<mapsto>
                                         w\<lparr>hash := HashRect xxh (g_vram s) (write_rect w)\<rparr>)\<rparr>)
                          else if num_splits w < max_vram_write_splits s \<and> active_rect w \<noteq> intersection
                          then SplitVRAMWrite xxh s it intersection
                          else RemoveVRAMWrite xxh s it) of
                      Inl f \<Rightarrow> Inl f
                    | Inr s' \<Rightarrow> written_writes_loop xxh rect update_vram_writes rest s')
              else written_writes_loop xxh rect update_vram_writes rest s))"

definition AddWrittenRectangle_page ::
  "(16 word list \<Rightarrow> HashType) \<Rightarrow> GSVector4i \<Rightarrow> bool \<Rightarrow> nat \<Rightarrow> tc_state \<Rightarrow> fault + tc_state" where
  "AddWrittenRectangle_page xxh rect update_vram_writes pn s =
     (case InvalidatePageSources_rect xxh pn rect s of
        Inl f \<Rightarrow> Inl f
      | Inr s1 \<Rightarrow>
          (let s2 = s1\<lparr>s_pages := (s_pages s1)(pn := written_clear_draw_rects rect (s_pages s1 pn))\<rparr>
           in written_writes_loop xxh rect update_vram_writes (writes (s_pages s2 pn)) s2))"

fun for_pages :: "(nat \<Rightarrow> tc_state \<Rightarrow> fault + tc_state) \<Rightarrow> nat list \<Rightarrow> tc_state \<Rightarrow> fault + tc_state" where
  "for_pages f [] s = Inr s"
| "for_pages f (pn # rest) s = (case f pn s of Inl e \<Rightarrow> Inl e | Inr s' \<Rightarrow> for_pages f rest s')"

definition AddWrittenRectangle ::
  "(16 word list \<Rightarrow> HashType) \<Rightarrow> tc_state \<Rightarrow> GSVector4i \<Rightarrow> bool \<Rightarrow> fault + tc_state" where
  "AddWrittenRectangle xxh s rect update_vram_writes =
     for_pages (AddWrittenRectangle_page xxh rect update_vram_writes) (LoopRectPages rect) s"

text \<open>\<^verbatim>\<open>AddDrawnRectangle\<close>, page by page.\<close>

fun drawn_writes_loop :: "(16 word list \<Rightarrow> HashType) \<Rightarrow> GSVector4i \<Rightarrow> nat list \<Rightarrow> tc_state \<Rightarrow> fault + tc_state" where
  "drawn_writes_loop xxh rect [] s = Inr s"
| "drawn_writes_loop xxh rect (it # rest) s =
     (case vram_writes s it of
        None \<Rightarrow> Inl UseAfterFree
      | Some w \<Rightarrow>
          if rintersects (active_rect w) rect
          then (case RemoveVRAMWrite xxh s it of
                  Inl f \<Rightarrow> Inl f
                | Inr s' \<Rightarrow> drawn_writes_loop xxh rect rest s')
          else drawn_writes_loop xxh rect rest s)"

definition AddDrawnRectangle_page ::
  "(16 word list \<Rightarrow> HashType) \<Rightarrow> GSVector4i \<Rightarrow> GSVector4i \<Rightarrow> nat \<Rightarrow> tc_state \<Rightarrow> fault + tc_state" where
  "AddDrawnRectangle_page xxh rect clip_rect pn s =
     (case drawn_writes_loop xxh rect (writes (s_pages s pn)) s of
        Inl f \<Rightarrow> Inl f
      | Inr s1 \<Rightarrow>
          (let pg = s_pages s1 pn;
               rc = rintersect rect (VRAMPageRect pn)
           in if num_draw_rects pg > 0
              then (case select_candidate (draw_rects pg) (num_draw_rects pg) rc clip_rect of
                      None \<Rightarrow> Inr s1
                    | Some candidate \<Rightarrow>
                        (case (if candidate \<noteq> num_draw_rects pg
                               then (let new_draw_rect = runion (draw_rects pg ! candidate) rc
                                     in InvalidatePageSources_rect xxh pn new_draw_rect
                                          (s1\<lparr>s_pages := (s_pages s1)(pn :=
                                                pg\<lparr>draw_rects := (draw_rects pg)[candidate := new_draw_rect]\<rparr>)\<rparr>))
                               else InvalidatePageSources_rect xxh pn rc
                                      (s1\<lparr>s_pages := (s_pages s1)(pn :=
                                            pg\<lparr>draw_rects := (draw_rects pg)[candidate := rc],
                                               num_draw_rects := num_draw_rects pg + 1\<rparr>)\<rparr>)) of
                           Inl f \<Rightarrow> Inl f
                         | Inr s2 \<Rightarrow>
                             Inr (s2\<lparr>s_pages := (s_pages s2)(pn :=
                                       (s_pages s2 pn)\<lparr>total_draw_rect := runion (total_draw_rect (s_pages s2 pn)) rc\<rparr>)\<rparr>)))
              else InvalidatePageSources_rect xxh pn rc
                     (s1\<lparr>s_pages := (s_pages s1)(pn :=
                           pg\<lparr>total_draw_rect := rc, draw_rects := (draw_rects pg)[0 := rc],
                              num_draw_rects := 1\<rparr>)\<rparr>)))"

definition AddDrawnRectangle ::
  "(16 word list \<Rightarrow> HashType) \<Rightarrow> tc_state \<Rightarrow> GSVector4i \<Rightarrow> GSVector4i \<Rightarrow> fault + tc_state" where
  "AddDrawnRectangle xxh s rect clip_rect =
     for_pages (AddDrawnRectangle_page xxh rect clip_rect) (LoopRectPages rect) s"

text \<open>
  The cache before anything has been looked up, written or drawn, with write tracking
  and texture dumping switched on, writes coalesced up to 256x16 and one split allowed
  per write. The memory limit is the initial value of the static variable.
\<close>

definition empty_page :: PageEntry where
  "empty_page = \<lparr>pg_sources = [], writes = [], num_draw_rects = 0,
                  total_draw_rect = GSVector4i 0 0 0 0,
                  draw_rects = replicate NUM_PAGE_DRAW_RECTS (GSVector4i 0 0 0 0)\<rparr>"

definition initial_state :: tc_state where
  "initial_state =
     \<lparr>s_pages = (\<lambda>pn. empty_page), vram_writes = Map.empty, live_sources = Map.empty,
      next_object = 0, s_last_vram_write = None, s_hash_cache = [],
      s_hash_cache_memory_usage = 0, s_max_hash_cache_memory_usage = 1073741824,
      s_track_vram_writes = True, g_vram = (\<lambda>i. 0),
      dump_textures = True, dump_texture_pages = False,
      max_vram_write_coalesce_width = 256, max_vram_write_coalesce_height = 16,
      max_vram_write_splits = 1\<rparr>"

section \<open>Texture replacement names\<close>

datatype TextureReplacementType = VRAMReplacement | TextureFromVRAMWrite | TextureFromPage

record TextureReplacementName =
  src_hash :: "64 word"
  pal_hash :: "64 word"
  src_width :: "16 word"
  src_height :: "16 word"
  name_type :: TextureReplacementType
  texture_mode :: "8 word"
  offset_x :: "16 word"
  offset_y :: "16 word"
  name_width :: "16 word"
  name_height :: "16 word"
  pal_min :: "8 word"
  pal_max :: "8 word"

definition mode_of_value :: "nat \<Rightarrow> GPUTextureMode" where
  "mode_of_value n = (if n = 0 then Palette4Bit else if n = 1 then Palette8Bit
                      else if n = 2 then Direct16Bit else Reserved_Direct16Bit)"

definition GetTextureMode :: "TextureReplacementName \<Rightarrow> GPUTextureMode" where
  "GetTextureMode n = mode_of_value (unat (texture_mode n AND 3))"

subsection \<open>Matching the palette of a replacement\<close>

text \<open>
  \<^verbatim>\<open>HashPartialPalette\<close> on a pointer into VRAM: \<open>size = max - min + 1\<close> in 32-bit
  arithmetic, and \<open>size\<close> halfwords are hashed from the pointer on. The overload on a
  palette register passes the pointer to the palette's first entry.
\<close>

definition HashPartialPalette_ptr ::
  "(16 word list \<Rightarrow> HashType) \<Rightarrow> (nat \<Rightarrow> 16 word) \<Rightarrow> nat \<Rightarrow> 32 word \<Rightarrow> 32 word \<Rightarrow> HashType" where
  "HashPartialPalette_ptr xxh vram palette_ptr min_i max_i =
     (let size = max_i - min_i + 1 in xxh (vram_row vram palette_ptr (unat size)))"

definition HashPartialPalette ::
  "(16 word list \<Rightarrow> HashType) \<Rightarrow> (nat \<Rightarrow> 16 word) \<Rightarrow> 16 word \<Rightarrow> GPUTextureMode \<Rightarrow> 32 word \<Rightarrow> 32 word \<Rightarrow> HashType" where
  "HashPartialPalette xxh vram reg m min_i max_i =
     HashPartialPalette_ptr xxh vram (VRAMPalettePointer reg) min_i max_i"

definition IsMatchingReplacementPalette ::
  "(16 word list \<Rightarrow> HashType) \<Rightarrow> (nat \<Rightarrow> 16 word) \<Rightarrow> HashType \<Rightarrow> GPUTextureMode \<Rightarrow> 16 word
     \<Rightarrow> TextureReplacementName \<Rightarrow> bool" where
  "IsMatchingReplacementPalette xxh vram full_palette_hash m reg name =
     (if \<not> TextureModeHasPalette m then True
      else let full_pal_max = GetPaletteWidth m - 1
           in if pal_min name = 0 \<and> unat (pal_max name) = full_pal_max
              then pal_hash name = full_palette_hash
              else if GetXBase reg + unat (pal_max name) \<ge> VRAM_WIDTH then False
              else HashPartialPalette xxh vram reg m (ucast (pal_min name)) (ucast (pal_max name)) = pal_hash name)"

text \<open>
  The palette entries with the indices \<open>lo\<close> to \<open>hi\<close>, counted from the entry that the
  palette register points to: what the specification asks the partial hash to cover.
\<close>

definition palette_entries :: "(nat \<Rightarrow> 16 word) \<Rightarrow> 16 word \<Rightarrow> nat \<Rightarrow> nat \<Rightarrow> 16 word list" where
  "palette_entries vram reg lo hi = map (\<lambda>i. vram (VRAMPalettePointer reg + i)) [lo..<Suc hi]"

subsection \<open>Formatting and parsing a name\<close>

text \<open>
  \<^verbatim>\<open>ToString\<close> formats with the fmt library: \<^verbatim>\<open>{:016X}\<close> prints a 64-bit value as 16
  upper-case hexadecimal digits, \<^verbatim>\<open>{}\<close> prints an unsigned number in decimal without
  leading zeros.
\<close>

definition hex_digit :: "nat \<Rightarrow> char" where
  "hex_digit d = ''0123456789ABCDEF'' ! d"

definition format_016X :: "64 word \<Rightarrow> string" where
  "format_016X v =
     map (\<lambda>shift. hex_digit (unat (drop_bit shift v AND 15)))
       [60, 56, 52, 48, 44, 40, 36, 32, 28, 24, 20, 16, 12, 8, 4, 0]"

fun format_dec :: "nat \<Rightarrow> string" where
  "format_dec n = (if n < 10 then [''0123456789'' ! n]
                   else format_dec (n div 10) @ [''0123456789'' ! (n mod 10)])"

definition s_texture_replacement_mode_names :: "string list" where
  "s_texture_replacement_mode_names =
     [''P4'', ''P8'', ''C16'', ''C16'', ''STP4'', ''STP8'', ''STC16'', ''STC16'']"

definition ToString :: "TextureReplacementName \<Rightarrow> fault + string" where
  "ToString n =
     (let type_str = (if name_type n = TextureFromVRAMWrite then ''texupload'' else ''texpage'')
      in if unat (texture_mode n) \<ge> length s_texture_replacement_mode_names then Inl OutOfBounds
         else let mode_str = s_texture_replacement_mode_names ! unat (texture_mode n)
              in if TextureModeHasPalette (GetTextureMode n)
                 then Inr (type_str @ ''-'' @ mode_str @ ''-'' @ format_016X (src_hash n) @ ''-'' @
                           format_016X (pal_hash n) @ ''-'' @
                           format_dec (unat (src_width n)) @ ''x'' @ format_dec (unat (src_height n)) @ ''-'' @
                           format_dec (unat (offset_x n)) @ ''-'' @ format_dec (unat (offset_y n)) @ ''-'' @
                           format_dec (unat (name_width n)) @ ''x'' @ format_dec (unat (name_height n)) @
                           ''-P'' @ format_dec (unat (pal_min n)) @ ''-'' @ format_dec (unat (pal_max n)))
                 else Inr (type_str @ ''-'' @ mode_str @ ''-'' @ format_016X (src_hash n) @ ''-'' @
                           format_dec (unat (src_width n)) @ ''x'' @ format_dec (unat (src_height n)) @ ''-'' @
                           format_dec (unat (offset_x n)) @ ''-'' @ format_dec (unat (offset_y n)) @ ''-'' @
                           format_dec (unat (name_width n)) @ ''x'' @ format_dec (unat (name_height n))))"

text \<open>
  \<^verbatim>\<open>std::string_view::find\<close> for a one-character needle (\<open>None\<close> is \<^verbatim>\<open>npos\<close>) and
  \<^verbatim>\<open>substr\<close>; every call of \<^verbatim>\<open>substr\<close> in \<^verbatim>\<open>Parse\<close> starts inside the string.
\<close>

fun find_from :: "char \<Rightarrow> string \<Rightarrow> nat \<Rightarrow> nat \<Rightarrow> nat option" where
  "find_from c [] i pos = None"
| "find_from c (x # xs) i pos = (if pos \<le> i \<and> x = c then Some i else find_from c xs (Suc i) pos)"

definition sv_find :: "string \<Rightarrow> char \<Rightarrow> nat \<Rightarrow> nat option" where
  "sv_find file_title c pos = find_from c file_title 0 pos"

definition substr :: "string \<Rightarrow> nat \<Rightarrow> nat \<Rightarrow> string" where
  "substr file_title pos count = take count (drop pos file_title)"

text \<open>
  Modelled from the spec: \<^verbatim>\<open>StringUtil::FromChars\<close> is declared in
  \<^verbatim>\<open>common/string_util.h\<close>, which is not among the sources. It wraps
  \<^verbatim>\<open>std::from_chars\<close>: the longest prefix of digits of the base is converted; there is no
  value when the text does not start with a digit or when the number does not fit the
  unsigned type. Characters after the digits are left unread.
\<close>

definition digit_value :: "nat \<Rightarrow> char \<Rightarrow> nat option" where
  "digit_value base c =
     (case map_of [(CHR ''0'', 0), (CHR ''1'', 1), (CHR ''2'', 2), (CHR ''3'', 3), (CHR ''4'', 4),
                   (CHR ''5'', 5), (CHR ''6'', 6), (CHR ''7'', 7), (CHR ''8'', 8), (CHR ''9'', 9),
                   (CHR ''a'', 10), (CHR ''b'', 11), (CHR ''c'', 12), (CHR ''d'', 13), (CHR ''e'', 14),
                   (CHR ''f'', 15), (CHR ''A'', 10), (CHR ''B'', 11), (CHR ''C'', 12), (CHR ''D'', 13),
                   (CHR ''E'', 14), (CHR ''F'', 15)] c of
        None \<Rightarrow> None
      | Some d \<Rightarrow> if d < base then Some d else None)"

fun from_chars_digits :: "nat \<Rightarrow> string \<Rightarrow> nat \<Rightarrow> nat" where
  "from_chars_digits base [] acc = acc"
| "from_chars_digits base (c # cs) acc =
     (case digit_value base c of
        None \<Rightarrow> acc
      | Some d \<Rightarrow> from_chars_digits base cs (acc * base + d))"

definition from_chars :: "nat \<Rightarrow> string \<Rightarrow> nat option" where
  "from_chars base str =
     (case str of
        [] \<Rightarrow> None
      | c # cs \<Rightarrow> (case digit_value base c of None \<Rightarrow> None | Some d \<Rightarrow> Some (from_chars_digits base str 0)))"

definition FromChars_u64 :: "string \<Rightarrow> nat \<Rightarrow> 64 word option" where
  "FromChars_u64 str base =
     (case from_chars base str of None \<Rightarrow> None | Some v \<Rightarrow> if v < 2 ^ 64 then Some (word_of_int (int v)) else None)"

definition FromChars_u16 :: "string \<Rightarrow> 16 word option" where
  "FromChars_u16 str =
     (case from_chars 10 str of None \<Rightarrow> None | Some v \<Rightarrow> if v < 2 ^ 16 then Some (word_of_int (int v)) else None)"

definition FromChars_u8 :: "string \<Rightarrow> 8 word option" where
  "FromChars_u8 str =
     (case from_chars 10 str of None \<Rightarrow> None | Some v \<Rightarrow> if v < 2 ^ 8 then Some (word_of_int (int v)) else None)"

text \<open>The loop of \<^verbatim>\<open>Parse\<close> over the mode names: the index of the first name equal to the token.\<close>

fun find_mode_name :: "string list \<Rightarrow> nat \<Rightarrow> string \<Rightarrow> nat option" where
  "find_mode_name [] i token = None"
| "find_mode_name (nm # rest) i token = (if token = nm then Some i else find_mode_name rest (Suc i) token)"

text \<open>
  \<^verbatim>\<open>Parse\<close> reads the tokens from left to right and assigns the fields of the object
  \<open>this\<close> as it goes; \<open>None\<close> is the result \<^verbatim>\<open>false\<close>. The tail of the paletted branch and
  of the direct branch are functions of their own; both start at the token after the
  source hash, with \<open>end_pos\<close> at the next dash.
\<close>

definition Parse_paletted :: "TextureReplacementName \<Rightarrow> string \<Rightarrow> nat \<Rightarrow> nat \<Rightarrow> TextureReplacementName option" where
  "Parse_paletted this file_title start_pos0 end_pos0 =
     (let token = substr file_title start_pos0 (end_pos0 - start_pos0)
      in case (if length token \<noteq> 16 then None else FromChars_u64 token 16) of None \<Rightarrow> None | Some v_pal_hash \<Rightarrow>
     (let start_pos = end_pos0 + 1 in case sv_find file_title CHR ''x'' (start_pos + 1) of None \<Rightarrow> None | Some end_pos \<Rightarrow>
     (case FromChars_u16 (substr file_title start_pos (end_pos - start_pos)) of None \<Rightarrow> None | Some v_src_width \<Rightarrow>
      if v_src_width = 0 then None else
     (let start_pos = end_pos + 1 in case sv_find file_title CHR ''-'' (start_pos + 1) of None \<Rightarrow> None | Some end_pos \<Rightarrow>
     (case FromChars_u16 (substr file_title start_pos (end_pos - start_pos)) of None \<Rightarrow> None | Some v_src_height \<Rightarrow>
      if v_src_height = 0 then None else
     (let start_pos = end_pos + 1 in case sv_find file_title CHR ''-'' (start_pos + 1) of None \<Rightarrow> None | Some end_pos \<Rightarrow>
     (case FromChars_u16 (substr file_title start_pos (end_pos - start_pos)) of None \<Rightarrow> None | Some v_offset_x \<Rightarrow>
     (let start_pos = end_pos + 1 in case sv_find file_title CHR ''-'' (start_pos + 1) of None \<Rightarrow> None | Some end_pos \<Rightarrow>
     (case FromChars_u16 (substr file_title start_pos (end_pos - start_pos)) of None \<Rightarrow> None | Some v_offset_y \<Rightarrow>
     (let start_pos = end_pos + 1 in case sv_find file_title CHR ''x'' (start_pos + 1) of None \<Rightarrow> None | Some end_pos \<Rightarrow>
     (case FromChars_u16 (substr file_title start_pos (end_pos - start_pos)) of None \<Rightarrow> None | Some v_width \<Rightarrow>
      if v_width = 0 then None else
     (let start_pos = end_pos + 1 in case sv_find file_title CHR ''-'' (start_pos + 1) of None \<Rightarrow> None | Some end_pos \<Rightarrow>
     (case FromChars_u16 (substr file_title start_pos (end_pos - start_pos)) of None \<Rightarrow> None | Some v_height \<Rightarrow>
      if v_height = 0 then None else
     (let start_pos = end_pos + 1 in case sv_find file_title CHR ''-'' (start_pos + 1) of None \<Rightarrow> None | Some end_pos \<Rightarrow>
      if file_title ! start_pos \<noteq> CHR ''P'' then None else
     (case FromChars_u8 (substr file_title (start_pos + 1) (end_pos - start_pos - 1)) of None \<Rightarrow> None | Some v_pal_min \<Rightarrow>
     (let start_pos = end_pos + 1 in
      case FromChars_u8 (drop start_pos file_title) of None \<Rightarrow> None | Some v_pal_max \<Rightarrow>
      if v_pal_min > v_pal_max then None
      else Some (this\<lparr>pal_hash := v_pal_hash, src_width := v_src_width, src_height := v_src_height,
                      offset_x := v_offset_x, offset_y := v_offset_y, name_width := v_width,
                      name_height := v_height, pal_min := v_pal_min, pal_max := v_pal_max\<rparr>)))))))))))))))))"

definition Parse_direct :: "TextureReplacementName \<Rightarrow> string \<Rightarrow> nat \<Rightarrow> nat \<Rightarrow> TextureReplacementName option" where
  "Parse_direct this file_title start_pos0 end_pos0 =
     (case FromChars_u16 (substr file_title start_pos0 (end_pos0 - start_pos0)) of None \<Rightarrow> None | Some v_src_width \<Rightarrow>
      if v_src_width = 0 then None else
     (let start_pos = end_pos0 + 1 in case sv_find file_title CHR ''-'' (start_pos + 1) of None \<Rightarrow> None | Some end_pos \<Rightarrow>
     (case FromChars_u16 (substr file_title start_pos (end_pos - start_pos)) of None \<Rightarrow> None | Some v_src_height \<Rightarrow>
      if v_src_height = 0 then None else
     (let start_pos = end_pos + 1 in case sv_find file_title CHR ''-'' (start_pos + 1) of None \<Rightarrow> None | Some end_pos \<Rightarrow>
     (case FromChars_u16 (substr file_title start_pos (end_pos - start_pos)) of None \<Rightarrow> None | Some v_offset_x \<Rightarrow>
     (let start_pos = end_pos + 1 in case sv_find file_title CHR ''-'' (start_pos + 1) of None \<Rightarrow> None | Some end_pos \<Rightarrow>
     (case FromChars_u16 (substr file_title start_pos (end_pos - start_pos)) of None \<Rightarrow> None | Some v_offset_y \<Rightarrow>
     (let start_pos = end_pos + 1 in case sv_find file_title CHR ''x'' (start_pos + 1) of None \<Rightarrow> None | Some end_pos \<Rightarrow>
     (case FromChars_u16 (substr file_title start_pos (end_pos - start_pos)) of None \<Rightarrow> None | Some v_width \<Rightarrow>
      if v_width = 0 then None else
     (let start_pos = end_pos + 1 in
      case FromChars_u16 (drop start_pos file_title) of None \<Rightarrow> None | Some v_height \<Rightarrow>
      if v_height = 0 then None
      else Some (this\<lparr>src_width := v_src_width, src_height := v_src_height,
                      offset_x := v_offset_x, offset_y := v_offset_y, name_width := v_width,
                      name_height := v_height\<rparr>)))))))))))"

definition Parse :: "TextureReplacementName \<Rightarrow> string \<Rightarrow> TextureReplacementName option" where
  "Parse this file_title =
     (case sv_find file_title CHR ''-'' 0 of None \<Rightarrow> None | Some end_pos \<Rightarrow>
     (let token = substr file_title 0 end_pos
      in case (if token = ''texupload'' then Some TextureFromVRAMWrite
               else if token = ''texpage'' then Some TextureFromPage else None) of None \<Rightarrow> None | Some v_type \<Rightarrow>
     (let start_pos = end_pos + 1 in case sv_find file_title CHR ''-'' (start_pos + 1) of None \<Rightarrow> None | Some end_pos \<Rightarrow>
     (case find_mode_name s_texture_replacement_mode_names 0 (substr file_title start_pos (end_pos - start_pos)) of
        None \<Rightarrow> None | Some mode_opt \<Rightarrow>
     (let start_pos = end_pos + 1 in case sv_find file_title CHR ''-'' (start_pos + 1) of None \<Rightarrow> None | Some end_pos \<Rightarrow>
     (let token = substr file_title start_pos (end_pos - start_pos)
      in case (if length token \<noteq> 16 then None else FromChars_u64 token 16) of None \<Rightarrow> None | Some v_src_hash \<Rightarrow>
     (let start_pos = end_pos + 1 in case sv_find file_title CHR ''-'' (start_pos + 1) of None \<Rightarrow> None | Some end_pos \<Rightarrow>
     (let this1 = this\<lparr>name_type := v_type, texture_mode := of_nat mode_opt, src_hash := v_src_hash\<rparr>
      in if TextureModeHasPalette (GetTextureMode this1)
         then Parse_paletted this1 file_title start_pos end_pos
         else Parse_direct this1 file_title start_pos end_pos))))))))"

section \<open>Inputs of the examples\<close>

text \<open>
  A stand-in for the hash function where an example needs a value: the number of
  halfwords hashed.
\<close>

definition count_hash :: "16 word list \<Rightarrow> HashType" where
  "count_hash xs = of_nat (length xs)"

text \<open>
  Two names of replacements for 8-bit textures. The first records the palette range 0
  to 16, the second the range 0 to 47; their palette hash is \<open>count_hash\<close> of that many
  entries.
\<close>

definition name_P8_edge :: TextureReplacementName where
  "name_P8_edge =
     \<lparr>src_hash = 1, pal_hash = 17, src_width = 64, src_height = 64, name_type = TextureFromPage,
      texture_mode = 1, offset_x = 0, offset_y = 0, name_width = 64, name_height = 64,
      pal_min = 0, pal_max = 16\<rparr>"

definition name_P8_window :: TextureReplacementName where
  "name_P8_window =
     \<lparr>src_hash = 1, pal_hash = 48, src_width = 64, src_height = 64, name_type = TextureFromPage,
      texture_mode = 1, offset_x = 0, offset_y = 0, name_width = 64, name_height = 64,
      pal_min = 0, pal_max = 47\<rparr>"

text \<open>Names of replacements in each mode and of each origin.\<close>

definition name_C16_page :: TextureReplacementName where
  "name_C16_page =
     \<lparr>src_hash = 0x0123456789ABCDEF, pal_hash = 0, src_width = 256, src_height = 256,
      name_type = TextureFromPage, texture_mode = 2, offset_x = 0, offset_y = 0,
      name_width = 256, name_height = 256, pal_min = 0, pal_max = 0\<rparr>"

definition name_C16_upload :: TextureReplacementName where
  "name_C16_upload =
     \<lparr>src_hash = 0x00000000DEADBEEF, pal_hash = 0, src_width = 64, src_height = 32,
      name_type = TextureFromVRAMWrite, texture_mode = 2, offset_x = 4, offset_y = 8,
      name_width = 16, name_height = 12, pal_min = 0, pal_max = 0\<rparr>"

definition name_P4_upload :: TextureReplacementName where
  "name_P4_upload =
     \<lparr>src_hash = 0x0123456789ABCDEF, pal_hash = 0xFEDCBA9876543210, src_width = 64, src_height = 32,
      name_type = TextureFromVRAMWrite, texture_mode = 0, offset_x = 4, offset_y = 8,
      name_width = 16, name_height = 12, pal_min = 3, pal_max = 15\<rparr>"

definition name_STP8_page :: TextureReplacementName where
  "name_STP8_page =
     \<lparr>src_hash = 0x00000000000000FF, pal_hash = 0x1000000000000001, src_width = 128, src_height = 256,
      name_type = TextureFromPage, texture_mode = 5, offset_x = 0, offset_y = 100,
      name_width = 65535, name_height = 1, pal_min = 12, pal_max = 47\<rparr>"

text \<open>An object whose fields are all zero, for \<^verbatim>\<open>Parse\<close> to fill.\<close>

definition name_zero :: TextureReplacementName where
  "name_zero =
     \<lparr>src_hash = 0, pal_hash = 0, src_width = 0, src_height = 0, name_type = VRAMReplacement,
      texture_mode = 0, offset_x = 0, offset_y = 0, name_width = 0, name_height = 0,
      pal_min = 0, pal_max = 0\<rparr>"

text \<open>A texture of 256 KiB, as the device hands out for a page of 256 by 256 texels.\<close>

definition example_texture :: GPUTexture where
  "example_texture = \<lparr>GetVRAMUsage = 262144\<rparr>"

text \<open>The key of a 4-bit texture on page 0 with its palette at the origin of VRAM.\<close>

definition c4_key :: SourceKey where
  "c4_key = \<lparr>page = 0, mode = Palette4Bit, palette = 0\<rparr>"

text \<open>
  A cache at the end of frame 6 that is one entry over the limit of 500. The first
  entry belongs to a 16-bit texture of page 0 that was last sampled in frame 1 and whose
  source 0 is still linked to the pages 0 to 3; the 500 others were used in frame 5 and
  have lost their sources. \<open>c1_after\<close> is the same cache without the first entry and
  without its source.
\<close>

definition c1_referenced_key :: HashCacheKey where
  "c1_referenced_key = HashCacheKey 0 0 2"

definition c1_referenced :: HashCacheEntry where
  "c1_referenced = \<lparr>texture = example_texture, ref_count = 1, last_used_frame = 1, sources = [0]\<rparr>"

definition c1_unreferenced :: HashCacheEntry where
  "c1_unreferenced = \<lparr>texture = example_texture, ref_count = 0, last_used_frame = 5, sources = []\<rparr>"

definition c1_source :: Source where
  "c1_source =
     \<lparr>key = \<lparr>page = 0, mode = Direct16Bit, palette = 0\<rparr>, texture_hash = 0, palette_hash = 0,
      texture_rect = GSVector4i 0 0 256 256, palette_rect = GSVector4i 0 0 0 0,
      active_uv_rect = GSVector4i 0 0 64 64, palette_record_flags = 0,
      from_hash_cache = c1_referenced_key, src_page_refs = [0, 1, 2, 3]\<rparr>"

definition c1_others :: "(HashCacheKey \<times> HashCacheEntry) list" where
  "c1_others = map (\<lambda>i. (HashCacheKey (of_nat i) 0 0, c1_unreferenced)) [1..<501]"

definition c1_pages :: "nat \<Rightarrow> PageEntry" where
  "c1_pages pn = (if pn < 4 then empty_page\<lparr>pg_sources := [0]\<rparr> else empty_page)"

definition c1_state :: tc_state where
  "c1_state =
     initial_state\<lparr>s_pages := c1_pages, live_sources := [0 \<mapsto> c1_source], next_object := 1,
                   s_hash_cache := (c1_referenced_key, c1_referenced) # c1_others,
                   s_hash_cache_memory_usage := 501 * 262144\<rparr>"

definition c1_after :: tc_state where
  "c1_after =
     initial_state\<lparr>s_pages := (\<lambda>pn. empty_page), live_sources := Map.empty, next_object := 1,
                   s_hash_cache := c1_others, s_hash_cache_memory_usage := 500 * 262144\<rparr>"

text \<open>The same referenced entry alone in a cache that is within both limits.\<close>

definition c1_within :: tc_state where
  "c1_within =
     initial_state\<lparr>s_pages := c1_pages, live_sources := [0 \<mapsto> c1_source], next_object := 1,
                   s_hash_cache := [(c1_referenced_key, c1_referenced)],
                   s_hash_cache_memory_usage := 262144\<rparr>"

text \<open>
  A cache that holds 500 entries without sources, all last used in frame
  \<open>0x7FFFFFFF\<close>, and nothing else: no source, no write, no drawn rectangle.
\<close>

definition c4_unreferenced :: HashCacheEntry where
  "c4_unreferenced =
     \<lparr>texture = example_texture, ref_count = 0, last_used_frame = 0x7FFFFFFF, sources = []\<rparr>"

definition c4_others :: "(HashCacheKey \<times> HashCacheEntry) list" where
  "c4_others = map (\<lambda>i. (HashCacheKey (of_nat i) 0 2, c4_unreferenced)) [1..<501]"

definition c4_crowded :: tc_state where
  "c4_crowded = initial_state\<lparr>s_hash_cache := c4_others, s_hash_cache_memory_usage := 500 * 262144\<rparr>"

section \<open>Results\<close>

lemmas rect_defs = rempty_def rintersect_def rintersects_def runion_def rcontains_def
  width_def height_def covers_def

lemmas geo_defs = VRAM_WIDTH_def VRAM_HEIGHT_def VRAM_PAGE_WIDTH_def VRAM_PAGE_HEIGHT_def
  VRAM_PAGES_WIDE_def VRAM_PAGE_X_MASK_def VRAM_PAGE_Y_MASK_def VRAMPageIndex_def LoopRectPages_def
  VRAMPageStartX_def VRAMPageStartY_def

lemmas write_defs = WriteVRAM_def initial_state_def link_write_pages_def append_write_def
  empty_page_def SplitVRAMWrite_def SyncVRAMWritePaletteRecords_def IsDumpingVRAMWriteTextures_def
  split_rects_def split_new_write_def unlink_write_def TryMergeVRAMWrite_def RemoveVRAMWrite_def
  AddWrittenRectangle_def AddWrittenRectangle_page_def InvalidatePageSources_rect_def
  written_clear_draw_rects_def

subsection \<open>Facts about the helpers\<close>

lemma LookupHashCache_miss:
  "map_of (s_hash_cache s) (HashCacheKey a b (of_nat (mode_value (mode k)))) = None \<Longrightarrow>
   LookupHashCache s k a b (Some t) =
     (Some (HashCacheKey a b (of_nat (mode_value (mode k)))),
      s\<lparr>s_hash_cache_memory_usage := s_hash_cache_memory_usage s + GetVRAMUsage t,
        s_hash_cache := s_hash_cache s @ [(HashCacheKey a b (of_nat (mode_value (mode k))),
            \<lparr>texture = t, ref_count = 0, last_used_frame = 0, sources = []\<rparr>)]\<rparr>)"
  by (simp add: LookupHashCache_def Let_def)

lemma LookupHashCache_fail:
  "map_of (s_hash_cache s) (HashCacheKey a b (of_nat (mode_value (mode k)))) = None \<Longrightarrow>
   LookupHashCache s k a b None = (None, s)"
  by (simp add: LookupHashCache_def Let_def)

lemma LookupHashCache_hit:
  "map_of (s_hash_cache s) (HashCacheKey a b (of_nat (mode_value (mode k)))) = Some e \<Longrightarrow>
   LookupHashCache s k a b tex = (Some (HashCacheKey a b (of_nat (mode_value (mode k)))), s)"
  by (simp add: LookupHashCache_def Let_def)

lemmas source_defs = LookupSource_def CreateSource_def TextureModeHasPalette_def
  LookupHashCache_miss ReturnSource_def mode_value_def update_entry_def LoopXWrappedPages_def
  TexturePageCountForMode_def PalettePageCountForMode_def PalettePageNumber_def GetXBase_def
  GetYBase_def add_page_ref_def add_page_ref_back_def GetTextureRect_def GetPaletteRect_def
  GetPaletteWidth_def

lemma Initialize_Palette4Bit:
  "mode k = Palette4Bit \<Longrightarrow>
   InitializeVRAMWritePaletteRecord xxh vram k rect flags =
     Inr \<lparr>prec_rect = rect, prec_key = k, prec_flags = flags,
          prec_palette_hash = xxh (vram_row vram (VRAMPalettePointer (palette k)) 16),
          prec_palette = vram_row vram (VRAMPalettePointer (palette k)) 16 @ replicate (MAX_CLUT_SIZE - 16) 0\<rparr>"
  by (simp add: InitializeVRAMWritePaletteRecord_def Let_def)

lemma HashPage_Palette4Bit_value:
  "HashPage xxh vram pg Palette4Bit =
     Inr (xxh (concat (map (\<lambda>y. vram_row vram (VRAMPagePointer pg + y * VRAM_WIDTH) VRAM_PAGE_WIDTH)
                          [0..<VRAM_PAGE_HEIGHT])))"
  unfolding HashPage_def Let_def GPUTextureMode.case by (rule refl)

lemma HashPage_Palette4Bit: "\<exists>h. HashPage xxh vram pg Palette4Bit = Inr h"
  using HashPage_Palette4Bit_value by blast

lemma HashPalette_Palette4Bit_value:
  "HashPalette xxh vram reg Palette4Bit = Inr (xxh (vram_row vram (VRAMPalettePointer reg) 16))"
  unfolding HashPalette_def Let_def GPUTextureMode.case by (rule refl)

lemma HashPalette_Palette4Bit: "\<exists>h. HashPalette xxh vram reg Palette4Bit = Inr h"
  using HashPalette_Palette4Bit_value by blast

text \<open>The invalid rectangle meets no rectangle.\<close>

lemma invalid_never_intersects: "\<not> rintersects INVALID_RECT r"
  by (cases r) (simp add: rect_defs INVALID_RECT_def)

subsection \<open>Splitting a write\<close>

text \<open>
  When the larger margin is above or below the written rectangle, the non-empty
  remainders cover the active rectangle minus the written one, texel for texel.
\<close>

lemma split_rects_top_bottom_exact:
  assumes "S = rintersect A W" "\<not> rempty S"
    and "max (top_y S - top_y A) (bottom A - bottom S) > max (left S - left A) (right A - right S)"
  shows "(\<exists>r \<in> set (split_rects A S). \<not> rempty r \<and> covers r p) \<longleftrightarrow> (covers A p \<and> \<not> covers S p)"
proof -
  obtain a1 a2 a3 a4 where A: "A = GSVector4i a1 a2 a3 a4" by (cases A)
  obtain w1 w2 w3 w4 where W: "W = GSVector4i w1 w2 w3 w4" by (cases W)
  obtain px py where p: "p = (px, py)" by (cases p)
  have br: "split_rects A S =
     [GSVector4i (left A) (top_y A) (right A) (top_y S),
      GSVector4i (left A) (bottom S) (right A) (bottom A),
      GSVector4i (left A) (top_y A + (top_y S - top_y A)) (left A + (left S - left A)) (bottom A - (bottom A - bottom S)),
      GSVector4i (right A - (right A - right S)) (top_y A + (top_y S - top_y A)) (right A) (bottom A - (bottom A - bottom S))]"
    using assms(3) by (simp add: split_rects_def Let_def)
  show ?thesis
    unfolding br using assms(1,2)
    by (simp add: A W p rect_defs max_def min_def split: if_splits) linarith+
qed

text \<open>In either direction a remainder lies inside the active rectangle and outside the written one.\<close>

lemma split_rects_outside:
  assumes "S = rintersect A W" "\<not> rempty S" "r \<in> set (split_rects A S)" "covers r p"
  shows "\<not> covers W p \<and> covers A p"
proof -
  obtain a1 a2 a3 a4 where A: "A = GSVector4i a1 a2 a3 a4" by (cases A)
  obtain w1 w2 w3 w4 where W: "W = GSVector4i w1 w2 w3 w4" by (cases W)
  obtain px py where p: "p = (px, py)" by (cases p)
  have S: "S = GSVector4i (max a1 w1) (max a2 w2) (min a3 w3) (min a4 w4)"
    using assms(1) by (simp add: A W rintersect_def)
  have ne: "max a1 w1 < min a3 w3" "max a2 w2 < min a4 w4"
    using assms(2) by (simp_all add: S rempty_def)
  have "r = GSVector4i a1 a2 a3 (max a2 w2) \<or> r = GSVector4i a1 (min a4 w4) a3 a4 \<or>
        r = GSVector4i a1 (max a2 w2) (max a1 w1) (min a4 w4) \<or>
        r = GSVector4i (min a3 w3) (max a2 w2) a3 (min a4 w4) \<or>
        r = GSVector4i a1 a2 (max a1 w1) a4 \<or> r = GSVector4i (min a3 w3) a2 a3 a4 \<or>
        r = GSVector4i (max a1 w1) (max a2 w2) (min a3 w3 - (a3 - min a3 w3)) (a2 - (max a2 w2 - a2)) \<or>
        r = GSVector4i (max a1 w1) (min a4 w4) (min a3 w3 - (a3 - min a3 w3)) a4"
    using assms(3) by (simp add: split_rects_def Let_def A S split: if_splits) blast+
  then show ?thesis
    using assms(4) ne
    apply (elim disjE)
    apply (simp_all add: A W p covers_def max_def min_def split: if_splits)
    apply (elim conjE, linarith)+
    done
qed

text \<open>
  C2. Splitting a write by a rectangle that overlaps its active rectangle in part should
  leave remainders that cover exactly the rest of the active rectangle, in both
  directions. A write of (0,0)-(64,64) is split by (32,16)-(64,64); the left margin is
  the largest, so the split goes left/right first. The only remainder that becomes a
  write is (0,0)-(32,64): the strip above the written rectangle, which holds the texel
  (40,5), belongs to the active rectangle, not to the written one, and to no remainder.
  The original write is deleted and unlinked.
\<close>

theorem C2_split_left_right_leaves_gap:
  "(case WriteVRAM xxh initial_state (GSVector4i 0 0 64 64) v of
      Inl f \<Rightarrow> False
    | Inr s \<Rightarrow>
        (case SplitVRAMWrite xxh s 0 (GSVector4i 32 16 64 64) of
           Inl f \<Rightarrow> False
         | Inr s' \<Rightarrow>
             writes (s_pages s' 0) = [1] \<and>
             map_option active_rect (vram_writes s' 1) = Some (GSVector4i 0 0 32 64) \<and>
             vram_writes s' 0 = None \<and> next_object s' = 2))
   \<and> GSVector4i 32 16 64 64 = rintersect (GSVector4i 0 0 64 64) (GSVector4i 32 16 100 100)
   \<and> covers (GSVector4i 0 0 64 64) (40, 5)
   \<and> \<not> covers (GSVector4i 32 16 64 64) (40, 5)
   \<and> \<not> covers (GSVector4i 0 0 32 64) (40, 5)"
  by (simp add: write_defs geo_defs rect_defs)

subsection \<open>Merging a write\<close>

text \<open>The scan of the sources never stops the merge: it only ends in a fault or with true.\<close>

lemma merge_check_sources_never_rejects: "merge_check_sources s entry ns \<noteq> Inr False"
  by (induction ns) (auto simp: invalid_never_intersects split: option.splits)

lemma merge_check_pages_never_rejects: "merge_check_pages s entry pns \<noteq> Inr False"
  by (induction pns) (auto simp: merge_check_sources_never_rejects split: sum.splits bool.splits)

text \<open>
  C3. A merge should be refused when a source on a page of the candidate write has
  sampled an area that overlaps the write. A write of (0,0)-(64,8) is followed by a
  lookup that samples (0,0)-(64,8) from page 0, and then by a write of (0,8)-(64,16)
  below the first: the second write is merged into the first, which now covers
  (0,0)-(64,16) and carries the hash of that rectangle, although the source has sampled
  all of the first write.
\<close>

theorem C3_merge_after_sampling:
  "(case WriteVRAM xxh initial_state (GSVector4i 0 0 64 8) v of
      Inl f \<Rightarrow> False
    | Inr s1 \<Rightarrow>
        (case LookupSource xxh s1 \<lparr>page = 0, mode = Palette4Bit, palette = 0\<rparr>
                (GSVector4i 0 0 64 8) 0 (Some t) frame of
           Inl f \<Rightarrow> False
         | Inr (n, s2) \<Rightarrow>
             pg_sources (s_pages s2 0) = [n] \<and>
             map_option active_uv_rect (live_sources s2 n) = Some (GSVector4i 0 0 64 8) \<and>
             map_option active_rect (vram_writes s2 0) = Some (GSVector4i 0 0 64 8) \<and>
             rintersects (GSVector4i 0 0 64 8) (GSVector4i 0 0 64 8) \<and>
             (case TryMergeVRAMWrite xxh s2 0 (GSVector4i 0 8 64 16) of
                Inr (True, s3) \<Rightarrow>
                  map_option active_rect (vram_writes s3 0) = Some (GSVector4i 0 0 64 16) \<and>
                  map_option hash (vram_writes s3 0) = Some (HashRect xxh v (GSVector4i 0 0 64 16)) \<and>
                  writes (s_pages s3 0) = [0]
              | _ \<Rightarrow> False)))"
proof -
  obtain th where th: "HashPage xxh v 0 Palette4Bit = Inr th"
    using HashPage_Palette4Bit by blast
  obtain ph where ph: "HashPalette xxh v 0 Palette4Bit = Inr ph"
    using HashPalette_Palette4Bit by blast
  show ?thesis
    apply (simp add: write_defs geo_defs rect_defs source_defs th ph INVALID_RECT_def)
    apply (simp add: Let_def write_defs geo_defs rect_defs source_defs th ph INVALID_RECT_def)
    done
qed

subsection \<open>Palette records of the remainders\<close>

text \<open>A remainder write starts without palette records, whatever the original holds.\<close>

lemma split_new_write_no_records:
  "\<not> rempty splitr \<Longrightarrow>
   map_option palette_records (vram_writes (split_new_write entry splitr s) (next_object s)) = Some []"
  by (simp add: split_new_write_def link_write_pages_def Let_def)

text \<open>
  C6. Every remainder should carry the palette records of the original write whose
  rectangle meets it. A write of (0,0)-(64,64) is sampled over (0,0)-(16,16) by a 4-bit
  source and then split by (32,16)-(64,64). Synchronising the original write gives it
  one palette record, for the rectangle (0,0)-(16,16); the remainder (0,0)-(32,64)
  meets that rectangle and inherits the write rectangle, the hash and the incremented
  split counter, but it carries no palette record.
\<close>

theorem C6_split_drops_palette_records:
  "(case WriteVRAM xxh initial_state (GSVector4i 0 0 64 64) v of
      Inl f \<Rightarrow> False
    | Inr s1 \<Rightarrow>
        (case LookupSource xxh s1 \<lparr>page = 0, mode = Palette4Bit, palette = 0\<rparr>
                (GSVector4i 0 0 16 16) 0 (Some t) frame of
           Inl f \<Rightarrow> False
         | Inr (n, s2) \<Rightarrow>
             (case vram_writes s2 0 of
                None \<Rightarrow> False
              | Some entry \<Rightarrow>
                  (case SyncVRAMWritePaletteRecords xxh s2 entry of
                     Inl f \<Rightarrow> False
                   | Inr entry' \<Rightarrow> map prec_rect (palette_records entry') = [GSVector4i 0 0 16 16])) \<and>
             (case SplitVRAMWrite xxh s2 0 (GSVector4i 32 16 64 64) of
                Inl f \<Rightarrow> False
              | Inr s3 \<Rightarrow>
                  writes (s_pages s3 0) = [2] \<and>
                  map_option active_rect (vram_writes s3 2) = Some (GSVector4i 0 0 32 64) \<and>
                  map_option palette_records (vram_writes s3 2) = Some [] \<and>
                  map_option write_rect (vram_writes s3 2) = Some (GSVector4i 0 0 64 64) \<and>
                  map_option num_splits (vram_writes s3 2) = Some 1 \<and>
                  map_option hash (vram_writes s3 2) = Some (HashRect xxh v (GSVector4i 0 0 64 64)))))
   \<and> rintersects (GSVector4i 0 0 16 16) (GSVector4i 0 0 32 64)"
proof -
  obtain th where th: "HashPage xxh v 0 Palette4Bit = Inr th"
    using HashPage_Palette4Bit by blast
  obtain ph where ph: "HashPalette xxh v 0 Palette4Bit = Inr ph"
    using HashPalette_Palette4Bit by blast
  show ?thesis
    by (simp add: write_defs geo_defs rect_defs source_defs th ph INVALID_RECT_def
        UpdateVRAMWriteSources_def Initialize_Palette4Bit)
qed

subsection \<open>Matching the palette of a replacement\<close>

lemma palette_entries_length: "length (palette_entries vram reg lo hi) = Suc hi - lo"
  by (simp add: palette_entries_def del: upt_Suc)

lemma partial_size: "unat ((ucast (m :: 8 word) :: 32 word) + 1) = Suc (unat m)"
proof -
  have lt: "unat m < 256" using unsigned_less [of m, where ?'a = nat] by simp
  have u: "unat (ucast m :: 32 word) = unat m"
    using lt by (simp add: unsigned_ucast_eq take_bit_nat_eq_self)
  have "unat ((ucast m :: 32 word) + 1) = unat (ucast m :: 32 word) + unat (1 :: 32 word)"
    using lt u by (subst unat_add_lem [THEN iffD1]) simp_all
  with u show ?thesis by simp
qed

text \<open>
  C7, as stated, fails: an 8-bit palette at x = 1008 and a name that records the palette
  range 0 to 16 with the hash of exactly those 17 entries. The range runs past the right
  edge of VRAM and the replacement is refused, although the hashes agree.
\<close>

theorem C7_range_past_edge_refused:
  "\<not> (IsMatchingReplacementPalette count_hash (\<lambda>i. 0) 0 Palette8Bit 63 name_P8_edge
        = (pal_hash name_P8_edge
             = count_hash (palette_entries (\<lambda>i. 0) 63 (unat (pal_min name_P8_edge)) (unat (pal_max name_P8_edge)))))"
  by (simp add: IsMatchingReplacementPalette_def name_P8_edge_def count_hash_def palette_entries_length
      TextureModeHasPalette_def GetPaletteWidth_def GetXBase_def VRAM_WIDTH_def)

text \<open>
  C7, amended. In a paletted mode: when the recorded range spans the whole palette, the
  replacement is accepted exactly when the name's palette hash is the full palette
  hash; when it does not and the range runs past the right edge of VRAM, the
  replacement is refused; and when the range starts at entry 0, does not span the
  whole palette and stays inside VRAM, the replacement is accepted exactly when the
  name's palette hash is the hash of the palette entries 0 to \<open>pal_max\<close>.
\<close>

theorem C7_matching_palette:
  assumes "TextureModeHasPalette m"
  shows "(pal_min name = 0 \<and> unat (pal_max name) = GetPaletteWidth m - 1 \<longrightarrow>
            IsMatchingReplacementPalette xxh vram full m reg name = (pal_hash name = full))
       \<and> (\<not> (pal_min name = 0 \<and> unat (pal_max name) = GetPaletteWidth m - 1) \<and>
             GetXBase reg + unat (pal_max name) \<ge> VRAM_WIDTH \<longrightarrow>
            \<not> IsMatchingReplacementPalette xxh vram full m reg name)
       \<and> (pal_min name = 0 \<and> unat (pal_max name) \<noteq> GetPaletteWidth m - 1 \<and>
             GetXBase reg + unat (pal_max name) < VRAM_WIDTH \<longrightarrow>
            IsMatchingReplacementPalette xxh vram full m reg name
              = (pal_hash name = xxh (palette_entries vram reg 0 (unat (pal_max name)))))"
  using assms
  by (auto simp: IsMatchingReplacementPalette_def HashPartialPalette_def HashPartialPalette_ptr_def
      partial_size palette_entries_def vram_row_def Let_def simp del: upt_Suc)

theorem C7_matching_palette_witness:
  "IsMatchingReplacementPalette count_hash (\<lambda>i. 0) 0 Palette8Bit 0 name_P8_window"
  using C7_matching_palette [of Palette8Bit name_P8_window count_hash "\<lambda>i. 0" 0 0]
  by (simp add: TextureModeHasPalette_def name_P8_window_def GetPaletteWidth_def GetXBase_def
      VRAM_WIDTH_def count_hash_def palette_entries_length)

subsection \<open>A failed texture allocation\<close>

text \<open>When the device has no texture to give, the hash cache stays as it is.\<close>

lemma LookupHashCache_failure_unchanged:
  "LookupHashCache s k th ph None = (r, s') \<Longrightarrow> s' = s"
  by (auto simp: LookupHashCache_def Let_def split: option.splits)

text \<open>
  C9. A failed texture allocation on a miss should reach the caller of \<^verbatim>\<open>LookupSource\<close>
  as a null result. \<^verbatim>\<open>LookupHashCache\<close> returns null and leaves the cache as it is, and
  \<^verbatim>\<open>CreateSource\<close> returns null; \<^verbatim>\<open>LookupSource\<close> passes that null pointer to
  \<^verbatim>\<open>ReturnSource\<close>, which reads through it.
\<close>

theorem C9_lookup_after_failed_allocation:
  "LookupSource xxh initial_state \<lparr>page = 0, mode = Palette4Bit, palette = 0\<rparr> rect flags None frame
     = Inl NullDereference"
proof -
  obtain th where th: "HashPage xxh (\<lambda>i. 0) 0 Palette4Bit = Inr th"
    using HashPage_Palette4Bit by blast
  obtain ph where ph: "HashPalette xxh (\<lambda>i. 0) 0 Palette4Bit = Inr ph"
    using HashPalette_Palette4Bit by blast
  show ?thesis
    by (simp add: LookupSource_def initial_state_def empty_page_def CreateSource_def th ph
        TextureModeHasPalette_def LookupHashCache_fail ReturnSource_def)
qed

subsection \<open>The pointer to the last write\<close>

text \<open>
  C10. The pointer to the most recent write should be null or point to a live, linked
  write after every operation. A write of (0,0)-(64,64) is followed by a written
  rectangle (32,16)-(100,100), which splits the write: the write is deleted, the pointer
  still holds it, and the next \<^verbatim>\<open>WriteVRAM\<close> reads the deleted object in
  \<^verbatim>\<open>TryMergeVRAMWrite\<close>.
\<close>

theorem C10_split_leaves_last_write_dangling:
  "(case WriteVRAM xxh initial_state (GSVector4i 0 0 64 64) v of
      Inl f \<Rightarrow> False
    | Inr s \<Rightarrow>
        (case AddWrittenRectangle xxh s (GSVector4i 32 16 100 100) False of
           Inl f \<Rightarrow> False
         | Inr s' \<Rightarrow>
             s_last_vram_write s' = Some 0 \<and> vram_writes s' 0 = None \<and>
             writes (s_pages s' 0) = [1] \<and>
             WriteVRAM xxh s' (GSVector4i 32 16 100 100) v' = Inl UseAfterFree))"
  by (simp add: write_defs geo_defs rect_defs)



subsection \<open>Choice of the drawn rectangle that absorbs a draw\<close>

text \<open>
  C5. With four drawn rectangles on the page, none of them containing the incoming
  rectangle and none of them met by the clip rectangle, the slot chosen should be the
  one whose centre is nearest to the centre of the incoming rectangle. On page 0 with
  the incoming rectangle (48,200)-(56,208) and the drawn rectangles (0,0)-(8,8),
  (44,180)-(52,190), (0,100)-(8,108) and (30,0)-(40,8), the code takes slot 0, whose
  centre is farthest away; the nearest centre is that of slot 1.
\<close>

theorem C5_select_candidate_not_nearest:
  "select_candidate
      [GSVector4i 0 0 8 8, GSVector4i 44 180 52 190, GSVector4i 0 100 8 108, GSVector4i 30 0 40 8]
      4 (GSVector4i 48 200 56 208) (GSVector4i 512 0 576 64) = Some 0
   \<and> centre_dist2 (GSVector4i 48 200 56 208) (GSVector4i 44 180 52 190)
       < centre_dist2 (GSVector4i 48 200 56 208) (GSVector4i 0 0 8 8)
   \<and> \<not> rcontains (GSVector4i 0 0 8 8) (GSVector4i 48 200 56 208)
   \<and> \<not> rcontains (GSVector4i 44 180 52 190) (GSVector4i 48 200 56 208)
   \<and> \<not> rcontains (GSVector4i 0 100 8 108) (GSVector4i 48 200 56 208)
   \<and> \<not> rcontains (GSVector4i 30 0 40 8) (GSVector4i 48 200 56 208)"
  by (simp add: select_candidate_def NUM_PAGE_DRAW_RECTS_def rcontains_def rintersects_def
      rintersect_def rempty_def RectDistance_def centre_dist2_def Let_def)

subsection \<open>Round trip of replacement names\<close>

lemmas parse_defs = Parse_def Parse_paletted_def Parse_direct_def sv_find_def substr_def
  s_texture_replacement_mode_names_def FromChars_u64_def FromChars_u16_def FromChars_u8_def
  from_chars_def digit_value_def GetTextureMode_def mode_of_value_def TextureModeHasPalette_def

lemmas tostring_defs = ToString_def s_texture_replacement_mode_names_def format_016X_def hex_digit_def
  GetTextureMode_def mode_of_value_def TextureModeHasPalette_def

text \<open>Paletted names of either origin come back from \<^verbatim>\<open>Parse\<close> as they were formatted.\<close>

lemma roundtrip_P4_upload:
  "ToString name_P4_upload = Inr ''texupload-P4-0123456789ABCDEF-FEDCBA9876543210-64x32-4-8-16x12-P3-15''
   \<and> Parse name_zero ''texupload-P4-0123456789ABCDEF-FEDCBA9876543210-64x32-4-8-16x12-P3-15''
       = Some name_P4_upload"
  by (simp add: tostring_defs parse_defs name_P4_upload_def name_zero_def)

lemma roundtrip_STP8_page:
  "ToString name_STP8_page = Inr ''texpage-STP8-00000000000000FF-1000000000000001-128x256-0-100-65535x1-P12-47''
   \<and> Parse name_zero ''texpage-STP8-00000000000000FF-1000000000000001-128x256-0-100-65535x1-P12-47''
       = Some name_STP8_page"
  by (simp add: tostring_defs parse_defs name_STP8_page_def name_zero_def)

text \<open>
  C8. The string that \<^verbatim>\<open>ToString\<close> produces should parse back to the same fields in each
  mode and for each origin. For a 16-bit name of either origin \<^verbatim>\<open>Parse\<close> returns false:
  the direct branch starts with \<open>end_pos\<close> at the dash behind the source size, reads the
  source height from the token of the x offset, and then looks for a dash behind the
  last token, where the string ends.
\<close>

theorem C8_direct16_name_does_not_parse:
  "ToString name_C16_page = Inr ''texpage-C16-0123456789ABCDEF-256x256-0-0-256x256''
   \<and> Parse name_C16_page ''texpage-C16-0123456789ABCDEF-256x256-0-0-256x256'' = None
   \<and> ToString name_C16_upload = Inr ''texupload-C16-00000000DEADBEEF-64x32-4-8-16x12''
   \<and> Parse name_C16_upload ''texupload-C16-00000000DEADBEEF-64x32-4-8-16x12'' = None"
  by (simp add: tostring_defs parse_defs name_C16_page_def name_C16_upload_def)

subsection \<open>Facts about sources and the hash cache\<close>

lemma find_source_Some:
  "find_source srcs k ns = Inr (Some n) \<Longrightarrow> n \<in> set ns \<and> (\<exists>src. srcs n = Some src \<and> key src = k)"
  by (induction ns) (auto split: option.splits if_splits)

lemma map_of_update_entry:
  "map_of (update_entry k f c) k' = (if k' = k then map_option f (map_of c k) else map_of c k')"
  by (induction c) (auto simp: update_entry_def)

lemma length_update_entry: "length (update_entry k f c) = length c"
  by (simp add: update_entry_def)

lemma ListMoveToFront_hd: "n \<in> set xs \<Longrightarrow> \<exists>rest. ListMoveToFront n xs = n # rest"
  by (cases xs) (auto simp: ListMoveToFront_def)

lemma ListMoveToFront_front: "ListMoveToFront n (n # rest) = n # rest"
  by (simp add: ListMoveToFront_def)

lemma ReturnSource_ok:
  assumes "live_sources s n = Some src" "map_of (s_hash_cache s) (from_hash_cache src) = Some e"
  shows "\<exists>s'. ReturnSource s (Some n) uv fl fr = Inr (n, s') \<and> s_pages s' = s_pages s \<and>
           length (s_hash_cache s') = length (s_hash_cache s) \<and>
           (\<exists>src'. live_sources s' n = Some src' \<and> key src' = key src \<and>
                   from_hash_cache src' = from_hash_cache src) \<and>
           map_of (s_hash_cache s') (from_hash_cache src) \<noteq> None"
  using assms by (simp add: ReturnSource_def Let_def map_of_update_entry length_update_entry)

lemma ReturnSource_Inr:
  assumes "ReturnSource s r uv fl fr = Inr (m, s')"
  shows "r = Some m \<and> (\<exists>src e. live_sources s m = Some src \<and>
            map_of (s_hash_cache s) (from_hash_cache src) = Some e)"
  using assms by (auto simp: ReturnSource_def Let_def split: option.splits if_splits)

text \<open>A source at the head of the list of its page is found, and nothing is added to the hash cache.\<close>

lemma LookupSource_front:
  assumes "pg_sources (s_pages s (page k)) = n # rest" "live_sources s n = Some src" "key src = k"
    and "map_of (s_hash_cache s) (from_hash_cache src) = Some e"
  shows "\<exists>s'. LookupSource xxh s k r f tex fr = Inr (n, s') \<and>
           length (s_hash_cache s') = length (s_hash_cache s) \<and>
           pg_sources (s_pages s' (page k)) = n # rest \<and>
           (\<exists>src'. live_sources s' n = Some src' \<and> key src' = k \<and>
                   map_of (s_hash_cache s') (from_hash_cache src') \<noteq> None)"
proof -
  let ?s1 = "s\<lparr>s_pages := (s_pages s)(page k := (s_pages s (page k))
               \<lparr>pg_sources := ListMoveToFront n (pg_sources (s_pages s (page k)))\<rparr>)\<rparr>"
  have f: "find_source (live_sources s) k (pg_sources (s_pages s (page k))) = Inr (Some n)"
    using assms by simp
  have l: "live_sources ?s1 n = Some src"
    and m: "map_of (s_hash_cache ?s1) (from_hash_cache src) = Some e"
    using assms by simp_all
  from ReturnSource_ok [OF l m, of r f fr] obtain s' where
    r: "ReturnSource ?s1 (Some n) r f fr = Inr (n, s')"
    and p: "s_pages s' = s_pages ?s1"
    and len: "length (s_hash_cache s') = length (s_hash_cache ?s1)"
    and src': "\<exists>src'. live_sources s' n = Some src' \<and> key src' = key src \<and>
                 from_hash_cache src' = from_hash_cache src"
    and mo: "map_of (s_hash_cache s') (from_hash_cache src) \<noteq> None"
    by blast
  have "LookupSource xxh s k r f tex fr = Inr (n, s')"
    using f r by (simp add: LookupSource_def Let_def)
  moreover have "pg_sources (s_pages s' (page k)) = n # rest"
    using p assms(1) by (simp add: ListMoveToFront_front)
  ultimately show ?thesis
    using len src' mo assms(3) by auto
qed

lemma LookupHashCache_Some:
  assumes "LookupHashCache s k th ph tex = (Some hk, s1)"
  shows "map_of (s_hash_cache s1) hk \<noteq> None \<and> s_pages s1 = s_pages s \<and> live_sources s1 = live_sources s"
  using assms
  by (auto simp: LookupHashCache_def Let_def map_add_def split: option.splits)

lemma add_page_ref_step:
  assumes "add_page_ref src pn (refs, s) = (refs', s')"
  shows "set refs \<subseteq> set refs' \<and> live_sources s' = live_sources s \<and> s_hash_cache s' = s_hash_cache s \<and>
         (\<forall>q \<in> set refs. s_pages s' q = s_pages s q)"
  using assms by (auto simp: add_page_ref_def split: if_splits)

lemma add_page_ref_back_step:
  assumes "add_page_ref_back src pn (refs, s) = (refs', s')"
  shows "set refs \<subseteq> set refs' \<and> live_sources s' = live_sources s \<and> s_hash_cache s' = s_hash_cache s \<and>
         (\<forall>q \<in> set refs. s_pages s' q = s_pages s q)"
  using assms by (auto simp: add_page_ref_back_def split: if_splits)

lemma fold_add_page_ref:
  "fold (add_page_ref src) pns (refs, s) = (refs', s') \<Longrightarrow>
     set refs \<subseteq> set refs' \<and> live_sources s' = live_sources s \<and> s_hash_cache s' = s_hash_cache s \<and>
     (\<forall>q \<in> set refs. s_pages s' q = s_pages s q)"
proof (induction pns arbitrary: refs s)
  case Nil
  then show ?case by simp
next
  case (Cons pn pns)
  obtain r1 s1 where st: "add_page_ref src pn (refs, s) = (r1, s1)"
    by (cases "add_page_ref src pn (refs, s)")
  with Cons.prems have "fold (add_page_ref src) pns (r1, s1) = (refs', s')" by simp
  from Cons.IH [OF this] add_page_ref_step [OF st] show ?case by (auto 4 3)
qed

lemma fold_add_page_ref_back:
  "fold (add_page_ref_back src) pns (refs, s) = (refs', s') \<Longrightarrow>
     set refs \<subseteq> set refs' \<and> live_sources s' = live_sources s \<and> s_hash_cache s' = s_hash_cache s \<and>
     (\<forall>q \<in> set refs. s_pages s' q = s_pages s q)"
proof (induction pns arbitrary: refs s)
  case Nil
  then show ?case by simp
next
  case (Cons pn pns)
  obtain r1 s1 where st: "add_page_ref_back src pn (refs, s) = (r1, s1)"
    by (cases "add_page_ref_back src pn (refs, s)")
  with Cons.prems have "fold (add_page_ref_back src) pns (r1, s1) = (refs', s')" by simp
  from Cons.IH [OF this] add_page_ref_back_step [OF st] show ?case by (auto 4 3)
qed

lemma wrap_all: "\<forall>pg \<in> set [0..<32]. (pg AND VRAM_PAGE_Y_MASK) OR ((pg + 0) AND VRAM_PAGE_X_MASK) = pg"
  by code_simp

lemma wrap_first: "pg < 32 \<Longrightarrow> (pg AND VRAM_PAGE_Y_MASK) OR (pg AND VRAM_PAGE_X_MASK) = pg"
  using wrap_all by simp

lemma LoopXWrappedPages_hd:
  "pg < 32 \<Longrightarrow> 0 < cnt \<Longrightarrow> \<exists>rest. LoopXWrappedPages pg cnt = pg # rest"
  by (simp add: LoopXWrappedPages_def upt_conv_Cons wrap_first)

lemma TexturePageCount_pos: "0 < TexturePageCountForMode m"
  by (cases m) (simp_all add: TexturePageCountForMode_def)


lemma CreateSource_Some:
  assumes cs: "CreateSource xxh s k tex = Inr (Some n, s')" and pk: "page k < 32"
  shows "pg_sources (s_pages s' (page k)) = n # pg_sources (s_pages s (page k)) \<and>
         (\<exists>src. live_sources s' n = Some src \<and> key src = k \<and>
                map_of (s_hash_cache s') (from_hash_cache src) \<noteq> None)"
proof -
  from cs obtain th where th: "HashPage xxh (g_vram s) (page k) (mode k) = Inr th"
    by (auto simp: CreateSource_def split: sum.splits)
  from cs th obtain ph where
    ph: "(if TextureModeHasPalette (mode k) then HashPalette xxh (g_vram s) (palette k) (mode k) else Inr 0) = Inr ph"
    by (auto simp: CreateSource_def split: sum.splits)
  obtain r s1 where lh: "LookupHashCache s k th ph tex = (r, s1)"
    by (cases "LookupHashCache s k th ph tex")
  from cs th ph lh obtain hk where r: "r = Some hk"
    by (cases r) (auto simp: CreateSource_def)
  note lhs = LookupHashCache_Some [OF lh [unfolded r]]
  let ?src = "next_object s1"
  let ?s2 = "s1\<lparr>next_object := Suc ?src,
                s_hash_cache := update_entry hk
                   (\<lambda>e. e\<lparr>ref_count := ref_count e + 1, sources := sources e @ [?src]\<rparr>)
                   (s_hash_cache s1)\<rparr>"
  obtain rest where lp: "LoopXWrappedPages (page k) (TexturePageCountForMode (mode k)) = page k # rest"
    using LoopXWrappedPages_hd [OF pk TexturePageCount_pos] by blast
  let ?s2' = "?s2\<lparr>s_pages := (s_pages ?s2)(page k := (s_pages ?s2 (page k))
                  \<lparr>pg_sources := ?src # pg_sources (s_pages ?s2 (page k))\<rparr>)\<rparr>"
  obtain refs1 s3 where f1: "fold (add_page_ref ?src) rest ([page k], ?s2') = (refs1, s3)"
    by (cases "fold (add_page_ref ?src) rest ([page k], ?s2')")
  have f1': "fold (add_page_ref ?src) (LoopXWrappedPages (page k) (TexturePageCountForMode (mode k))) ([], ?s2)
              = (refs1, s3)"
    using f1 by (simp add: lp add_page_ref_def)
  note p1 = fold_add_page_ref [OF f1]
  obtain refs2 s4 where f2: "(if TextureModeHasPalette (mode k)
                              then fold (add_page_ref_back ?src)
                                     (LoopXWrappedPages (PalettePageNumber (palette k))
                                        (PalettePageCountForMode (mode k))) (refs1, s3)
                              else (refs1, s3)) = (refs2, s4)"
    by (cases "(if TextureModeHasPalette (mode k)
                              then fold (add_page_ref_back ?src)
                                     (LoopXWrappedPages (PalettePageNumber (palette k))
                                        (PalettePageCountForMode (mode k))) (refs1, s3)
                              else (refs1, s3))")
  have p2: "live_sources s4 = live_sources s3 \<and> s_hash_cache s4 = s_hash_cache s3 \<and>
            (\<forall>q \<in> set refs1. s_pages s4 q = s_pages s3 q)"
  proof (cases "TextureModeHasPalette (mode k)")
    case True
    with f2 have "fold (add_page_ref_back ?src)
                    (LoopXWrappedPages (PalettePageNumber (palette k)) (PalettePageCountForMode (mode k)))
                    (refs1, s3) = (refs2, s4)" by simp
    from fold_add_page_ref_back [OF this] show ?thesis by simp
  next
    case False
    with f2 show ?thesis by simp
  qed
  have res: "n = ?src \<and> (\<exists>ns. s' = s4\<lparr>live_sources := (live_sources s4)(?src \<mapsto> ns)\<rparr> \<and> key ns = k \<and>
                 from_hash_cache ns = hk)"
    using cs th ph lh r f1' f2
    by (cases "TextureModeHasPalette (mode k)") (auto simp: CreateSource_def Let_def)
  then obtain ns where n: "n = ?src" and s': "s' = s4\<lparr>live_sources := (live_sources s4)(?src \<mapsto> ns)\<rparr>"
    and kn: "key ns = k" and hn: "from_hash_cache ns = hk" by blast
  have pgk: "page k \<in> set refs1" using p1 by auto
  have "s_pages s' (page k) = s_pages s4 (page k)" by (simp add: s')
  also have "\<dots> = s_pages s3 (page k)" using p2 pgk by simp
  also have "\<dots> = s_pages ?s2' (page k)" using p1 by simp
  finally have "pg_sources (s_pages s' (page k)) = ?src # pg_sources (s_pages s (page k))"
    using lhs by simp
  moreover have "live_sources s' n = Some ns" by (simp add: s' n)
  moreover have "s_hash_cache s' = s_hash_cache ?s2"
    using p1 p2 by (simp add: s')
  then have "map_of (s_hash_cache s') hk \<noteq> None"
    using lhs by (simp add: map_of_update_entry)
  ultimately show ?thesis using n kn hn by simp
qed

text \<open>
  Two lookups of the same key, one directly after the other, in any state: the second
  one returns the object of the first.
\<close>

lemma LookupSource_twice:
  assumes first: "LookupSource xxh s k rect flags tex frame = Inr (n, s1)"
    and pk: "page k < 32"
  shows "\<exists>s2. LookupSource xxh s1 k rect' flags' tex' frame' = Inr (n, s2) \<and>
              length (s_hash_cache s2) = length (s_hash_cache s1)"
proof -
  have front: "\<exists>rest src e. pg_sources (s_pages s1 (page k)) = n # rest \<and> live_sources s1 n = Some src \<and>
                 key src = k \<and> map_of (s_hash_cache s1) (from_hash_cache src) = Some e"
  proof (cases "find_source (live_sources s) k (pg_sources (s_pages s (page k)))")
    case (Inl f)
    with first show ?thesis by (simp add: LookupSource_def)
  next
    case (Inr found)
    show ?thesis
    proof (cases found)
      case (Some m)
      let ?s0 = "s\<lparr>s_pages := (s_pages s)(page k := (s_pages s (page k))
                   \<lparr>pg_sources := ListMoveToFront m (pg_sources (s_pages s (page k)))\<rparr>)\<rparr>"
      from Inr Some first have rs: "ReturnSource ?s0 (Some m) rect flags frame = Inr (n, s1)"
        by (simp add: LookupSource_def Let_def)
      from ReturnSource_Inr [OF rs] obtain src e where mn: "m = n"
        and l0: "live_sources ?s0 n = Some src"
        and m0: "map_of (s_hash_cache ?s0) (from_hash_cache src) = Some e" by auto
      from find_source_Some [OF Inr [unfolded Some]] l0 mn
      have mem: "n \<in> set (pg_sources (s_pages s (page k)))" and ks: "key src = k" by auto
      from ReturnSource_ok [OF l0 m0, of rect flags frame] rs mn
      have p: "s_pages s1 = s_pages ?s0"
        and src1: "\<exists>src'. live_sources s1 n = Some src' \<and> key src' = key src \<and>
                     from_hash_cache src' = from_hash_cache src"
        and mo: "map_of (s_hash_cache s1) (from_hash_cache src) \<noteq> None" by auto
      from ListMoveToFront_hd [OF mem] obtain rest where
        "ListMoveToFront n (pg_sources (s_pages s (page k))) = n # rest" by blast
      then have "pg_sources (s_pages s1 (page k)) = n # rest" using p mn by simp
      then show ?thesis using src1 mo ks by auto
    next
      case None
      with Inr first obtain r s0 where cs: "CreateSource xxh s k tex = Inr (r, s0)"
        and rs: "ReturnSource s0 r rect flags frame = Inr (n, s1)"
        by (auto simp: LookupSource_def split: sum.splits)
      from ReturnSource_Inr [OF rs] obtain src e where r: "r = Some n"
        and l0: "live_sources s0 n = Some src"
        and m0: "map_of (s_hash_cache s0) (from_hash_cache src) = Some e" by auto
      from CreateSource_Some [OF cs [unfolded r] pk] l0
      have pg0: "pg_sources (s_pages s0 (page k)) = n # pg_sources (s_pages s (page k))"
        and ks: "key src = k" by auto
      from ReturnSource_ok [OF l0 m0, of rect flags frame] rs r
      have p: "s_pages s1 = s_pages s0"
        and src1: "\<exists>src'. live_sources s1 n = Some src' \<and> key src' = key src \<and>
                     from_hash_cache src' = from_hash_cache src"
        and mo: "map_of (s_hash_cache s1) (from_hash_cache src) \<noteq> None" by auto
      show ?thesis using pg0 p src1 mo ks by auto
    qed
  qed
  then obtain rest src e where "pg_sources (s_pages s1 (page k)) = n # rest"
    "live_sources s1 n = Some src" "key src = k"
    "map_of (s_hash_cache s1) (from_hash_cache src) = Some e" by blast
  from LookupSource_front [OF this, of xxh rect' flags' tex' frame'] show ?thesis by blast
qed

lemma map_of_filter_key:
  "map_of (filter (\<lambda>(k, _). k \<noteq> it) c) k' = (if k' = it then None else map_of c k')"
  by (induction c) auto

lemma destroy_update_writes_keeps:
  "destroy_update_writes xxh src ws s = Inr s' \<Longrightarrow>
     s_hash_cache s' = s_hash_cache s \<and> live_sources s' = live_sources s"
proof (induction ws arbitrary: s)
  case Nil
  then show ?case by simp
next
  case (Cons vw ws)
  then show ?case by (auto split: option.splits sum.splits)
qed

lemma destroy_update_pages_keeps:
  "destroy_update_pages xxh src ps s = Inr s' \<Longrightarrow>
     s_hash_cache s' = s_hash_cache s \<and> live_sources s' = live_sources s"
proof (induction ps arbitrary: s)
  case Nil
  then show ?case by simp
next
  case (Cons pn ps)
  then show ?case by (auto split: sum.splits dest!: destroy_update_writes_keeps)
qed

lemma fold_unlink_source_keeps:
  "s_hash_cache (fold (unlink_source n) ps s) = s_hash_cache s \<and>
   live_sources (fold (unlink_source n) ps s) = live_sources s"
  by (induction ps arbitrary: s) (simp_all add: unlink_source_def)

lemma DestroySource_effect:
  assumes "DestroySource xxh n s = Inr s'"
  shows "\<exists>src. live_sources s n = Some src \<and>
           s_hash_cache s' = update_entry (from_hash_cache src)
              (\<lambda>e. e\<lparr>sources := remove1 n (sources e), ref_count := ref_count e - 1\<rparr>) (s_hash_cache s) \<and>
           live_sources s' = (live_sources s)(n := None)"
proof -
  from assms obtain src where l: "live_sources s n = Some src"
    by (auto simp: DestroySource_def split: option.splits)
  from assms l obtain s1 where
    s1: "(if dump_textures s \<and> active_uv_rect src \<noteq> INVALID_RECT \<and> \<not> dump_texture_pages s
          then destroy_update_pages xxh src (LoopRectPages (active_uv_rect src)) s
          else Inr s) = Inr s1"
    by (auto simp: DestroySource_def split: sum.splits)
  have k1: "s_hash_cache s1 = s_hash_cache s \<and> live_sources s1 = live_sources s"
    using s1 by (auto split: if_splits dest!: destroy_update_pages_keeps)
  show ?thesis
    using assms l s1 k1 fold_unlink_source_keeps [of n "src_page_refs src" s1]
    by (auto simp: DestroySource_def Let_def split: option.splits)
qed

lemma DestroySource_inv:
  assumes d: "DestroySource xxh n s = Inr s'" and ok: "cache_links_ok s"
    and own: "\<forall>src. live_sources s n = Some src \<longrightarrow> from_hash_cache src = it"
  shows "cache_links_ok s' \<and> (\<forall>k'. k' \<noteq> it \<longrightarrow> map_of (s_hash_cache s') k' = map_of (s_hash_cache s) k') \<and>
         (\<forall>m src. live_sources s' m = Some src \<longrightarrow> live_sources s m = Some src)"
proof -
  from DestroySource_effect [OF d] obtain src where l: "live_sources s n = Some src"
    and c: "s_hash_cache s' = update_entry (from_hash_cache src)
              (\<lambda>e. e\<lparr>sources := remove1 n (sources e), ref_count := ref_count e - 1\<rparr>) (s_hash_cache s)"
    and ls: "live_sources s' = (live_sources s)(n := None)" by blast
  from own l have it: "from_hash_cache src = it" by simp
  have live: "\<forall>m src. live_sources s' m = Some src \<longrightarrow> live_sources s m = Some src"
    by (simp add: ls)
  have other: "\<forall>k'. k' \<noteq> it \<longrightarrow> map_of (s_hash_cache s') k' = map_of (s_hash_cache s) k'"
    by (simp add: c it map_of_update_entry)
  have "cache_links_ok s'"
    unfolding cache_links_ok_def
  proof (intro allI impI, elim conjE)
    fix k e m srcm
    assume m: "map_of (s_hash_cache s') k = Some e" and mem: "m \<in> set (sources e)"
      and lm: "live_sources s' m = Some srcm"
    have "\<exists>e0. map_of (s_hash_cache s) k = Some e0 \<and> set (sources e) \<subseteq> set (sources e0)"
    proof (cases "k = from_hash_cache src")
      case True
      with m obtain z where z: "map_of (s_hash_cache s) k = Some z"
        and ez: "e = z\<lparr>sources := remove1 n (sources z), ref_count := ref_count z - 1\<rparr>"
        by (auto simp: c map_of_update_entry)
      have "set (sources e) \<subseteq> set (sources z)"
        by (simp add: ez set_remove1_subset)
      with z show ?thesis by blast
    next
      case False
      with m have "map_of (s_hash_cache s) k = Some e"
        by (simp add: c map_of_update_entry)
      then show ?thesis by blast
    qed
    then obtain e0 where e0: "map_of (s_hash_cache s) k = Some e0"
      and sub: "set (sources e) \<subseteq> set (sources e0)" by blast
    from lm live have "live_sources s m = Some srcm" by blast
    with ok e0 sub mem show "from_hash_cache srcm = k"
      unfolding cache_links_ok_def by blast
  qed
  with other live show ?thesis by blast
qed

lemma destroy_sources_inv:
  "destroy_sources xxh ns s = Inr s' \<Longrightarrow> cache_links_ok s \<Longrightarrow>
   (\<forall>n \<in> set ns. \<forall>src. live_sources s n = Some src \<longrightarrow> from_hash_cache src = it) \<Longrightarrow>
   cache_links_ok s' \<and> (\<forall>k'. k' \<noteq> it \<longrightarrow> map_of (s_hash_cache s') k' = map_of (s_hash_cache s) k') \<and>
   (\<forall>m src. live_sources s' m = Some src \<longrightarrow> live_sources s m = Some src)"
proof (induction ns arbitrary: s)
  case Nil
  then show ?case by simp
next
  case (Cons n ns)
  from Cons.prems(1) obtain s1 where d: "DestroySource xxh n s = Inr s1"
    and r: "destroy_sources xxh ns s1 = Inr s'"
    by (auto split: sum.splits)
  from Cons.prems(3) have own: "\<forall>src. live_sources s n = Some src \<longrightarrow> from_hash_cache src = it" by simp
  note i1 = DestroySource_inv [OF d Cons.prems(2) own]
  have own': "\<forall>n \<in> set ns. \<forall>src. live_sources s1 n = Some src \<longrightarrow> from_hash_cache src = it"
    using Cons.prems(3) i1 by auto
  from Cons.IH [OF r _ own'] i1 show ?case by auto
qed

lemma RemoveFromHashCache_inv:
  assumes r: "RemoveFromHashCache xxh it s = Inr s'" and ok: "cache_links_ok s"
  shows "cache_links_ok s' \<and> (\<forall>k'. k' \<noteq> it \<longrightarrow> map_of (s_hash_cache s') k' = map_of (s_hash_cache s) k') \<and>
         map_of (s_hash_cache s') it = None"
proof -
  from r obtain e0 where e0: "map_of (s_hash_cache s) it = Some e0"
    by (auto simp: RemoveFromHashCache_def split: option.splits)
  from r e0 obtain s1 where d: "destroy_sources xxh (sources e0) s = Inr s1"
    by (auto simp: RemoveFromHashCache_def split: sum.splits)
  from r e0 d obtain e :: HashCacheEntry where
    s': "s' = s1\<lparr>s_hash_cache_memory_usage := s_hash_cache_memory_usage s1 - GetVRAMUsage (texture e),
                 s_hash_cache := filter (\<lambda>(k, _). k \<noteq> it) (s_hash_cache s1)\<rparr>"
    by (auto simp: RemoveFromHashCache_def split: option.splits)
  have own: "\<forall>n \<in> set (sources e0). \<forall>src. live_sources s n = Some src \<longrightarrow> from_hash_cache src = it"
    using ok e0 unfolding cache_links_ok_def by blast
  note i = destroy_sources_inv [OF d ok own]
  have "cache_links_ok s'"
    using i unfolding cache_links_ok_def
    by (auto simp: s' map_of_filter_key split: if_splits)
  moreover have "\<forall>k'. k' \<noteq> it \<longrightarrow> map_of (s_hash_cache s') k' = map_of (s_hash_cache s) k'"
    using i by (simp add: s' map_of_filter_key)
  moreover have "map_of (s_hash_cache s') it = None"
    by (simp add: s' map_of_filter_key)
  ultimately show ?thesis by blast
qed

lemma compact_loop_inv:
  "compact_loop xxh m ks (b, pl, s) = Inr (b', pl', s') \<Longrightarrow> cache_links_ok s \<Longrightarrow>
   map_of (s_hash_cache s) k = Some e \<Longrightarrow> ref_count e \<noteq> 0 \<Longrightarrow>
   cache_links_ok s' \<and> map_of (s_hash_cache s') k = Some e \<and> (\<not> b \<longrightarrow> \<not> b' \<and> pl' = pl)"
proof (induction ks arbitrary: b pl s)
  case Nil
  then show ?case by simp
next
  case (Cons it ks)
  from Cons.prems(1) obtain ei where ei: "map_of (s_hash_cache s) it = Some ei"
    by (auto split: option.splits)
  show ?case
  proof (cases "ref_count ei = 0 \<and> last_used_frame ei < m")
    case True
    with Cons.prems(1) ei obtain s1 where r: "RemoveFromHashCache xxh it s = Inr s1"
      and l: "compact_loop xxh m ks (b, pl, s1) = Inr (b', pl', s')"
      by (auto split: sum.splits)
    from True ei Cons.prems(3,4) have ne: "k \<noteq> it" by auto
    from RemoveFromHashCache_inv [OF r Cons.prems(2)] ne Cons.prems(3)
    have "cache_links_ok s1" "map_of (s_hash_cache s1) k = Some e" by auto
    from Cons.IH [OF l this Cons.prems(4)] show ?thesis .
  next
    case False
    show ?thesis
    proof (cases b)
      case True
      with False Cons.prems(1) ei obtain b1 pl1 where
        l: "compact_loop xxh m ks (b1, pl1, s) = Inr (b', pl', s')"
        by (auto split: if_splits)
      from Cons.IH [OF l Cons.prems(2,3,4)] True show ?thesis by simp
    next
      case b: False
      with False Cons.prems(1) ei have
        l: "compact_loop xxh m ks (False, pl, s) = Inr (b', pl', s')"
        by (auto split: if_splits)
      from Cons.IH [OF l Cons.prems(2,3,4)] b show ?thesis by simp
    qed
  qed
qed

lemma update_entry_Cons:
  "update_entry k f ((k', e) # c) = (if k' = k then (k', f e) else (k', e)) # update_entry k f c"
  by (simp add: update_entry_def)

lemma update_entry_absent: "k \<notin> fst ` set c \<Longrightarrow> update_entry k f c = c"
  by (induction c) (auto simp: update_entry_def)

lemma filter_key_absent: "k \<notin> fst ` set c \<Longrightarrow> filter (\<lambda>(k', _). k' \<noteq> k) c = c"
  by (induction c) auto

lemma map_of_const_keys: "k \<in> f ` set xs \<Longrightarrow> map_of (map (\<lambda>i. (f i, v)) xs) k = Some v"
  by (induction xs) auto

lemma compact_loop_young:
  "over_budget s \<Longrightarrow> \<forall>k \<in> set ks. map_of (s_hash_cache s) k \<noteq> None \<Longrightarrow>
   compact_loop xxh 0 ks (True, pl, s) =
     Inr (True, pl @ map (\<lambda>k. (k, sint (last_used_frame (the (map_of (s_hash_cache s) k))))) ks, s)"
  by (induction ks arbitrary: pl) auto

lemma purge_loop_within: "\<not> over_budget s \<Longrightarrow> purge_loop xxh l s = Inr s"
  by (cases l) simp_all

lemma find_source_cong:
  "(\<forall>m \<in> set xs. map_option key (srcs' m) = map_option key (srcs m)) \<Longrightarrow>
   find_source srcs' k xs = find_source srcs k xs"
proof (induction xs)
  case Nil
  then show ?case by simp
next
  case (Cons x xs)
  then have h: "map_option key (srcs' x) = map_option key (srcs x)" and
    t: "find_source srcs' k xs = find_source srcs k xs" by simp_all
  show ?case
  proof (cases "srcs x")
    case None
    with h have "srcs' x = None" by simp
    with None show ?thesis by simp
  next
    case (Some a)
    with h obtain a' where a': "srcs' x = Some a'" and "key a' = key a" by auto
    with Some t show ?thesis by simp
  qed
qed

lemma find_source_append:
  "find_source srcs k xs = Inr (Some n) \<Longrightarrow> find_source srcs k (xs @ ys) = Inr (Some n)"
  by (induction xs) (auto split: option.splits if_splits)

lemma find_source_remove1:
  "find_source srcs k xs = Inr (Some n) \<Longrightarrow> srcs m = Some src \<Longrightarrow> key src \<noteq> k \<Longrightarrow>
   find_source srcs k (remove1 m xs) = Inr (Some n)"
  by (induction xs) (auto split: option.splits if_splits)

lemma find_source_remove_dead:
  "find_source srcs k xs = Inr (Some n) \<Longrightarrow> m \<noteq> n \<Longrightarrow> distinct xs \<Longrightarrow>
   find_source (srcs(m := None)) k (remove1 m xs) = Inr (Some n)"
proof (induction xs)
  case Nil
  then show ?case by simp
next
  case (Cons x xs)
  from Cons.prems(1) obtain sx where sx: "srcs x = Some sx" by (auto split: option.splits)
  show ?case
  proof (cases "x = m")
    case True
    with Cons.prems sx have nk: "key sx \<noteq> k" by auto
    with Cons.prems(1) sx have f: "find_source srcs k xs = Inr (Some n)" by simp
    from True Cons.prems(3) have "m \<notin> set xs" by simp
    then have "find_source (srcs(m := None)) k xs = find_source srcs k xs"
      by (intro find_source_cong) auto
    with f have e2: "find_source (srcs(m := None)) k xs = Inr (Some n)" by simp
    have e1: "remove1 m (x # xs) = xs" using True by simp
    show ?thesis unfolding e1 by (rule e2)
  next
    case False
    show ?thesis
    proof (cases "key sx = k")
      case True
      with Cons.prems(1) sx False show ?thesis by simp
    next
      case nk: False
      with Cons.prems(1) sx have f: "find_source srcs k xs = Inr (Some n)" by simp
      from Cons.IH [OF f Cons.prems(2)] Cons.prems(3) sx nk False show ?thesis by simp
    qed
  qed
qed

lemma fold_unlink_source_pages:
  "distinct (pg_sources (s_pages s pn)) \<Longrightarrow>
   pg_sources (s_pages (fold (unlink_source m) refs s) pn) =
     (if pn \<in> set refs then remove1 m (pg_sources (s_pages s pn)) else pg_sources (s_pages s pn))"
proof (induction refs arbitrary: s)
  case Nil
  then show ?case by simp
next
  case (Cons p ps)
  let ?s1 = "unlink_source m p s"
  have l1: "pg_sources (s_pages ?s1 pn) =
              (if p = pn then remove1 m (pg_sources (s_pages s pn)) else pg_sources (s_pages s pn))"
    by (simp add: unlink_source_def)
  have d1: "distinct (pg_sources (s_pages ?s1 pn))"
    using Cons.prems by (simp add: l1)
  have idem: "remove1 m (remove1 m (pg_sources (s_pages s pn))) = remove1 m (pg_sources (s_pages s pn))"
    using Cons.prems by (simp add: remove1_idem)
  have f: "fold (unlink_source m) (p # ps) s = fold (unlink_source m) ps ?s1" by simp
  show ?case
  proof (cases "p = pn")
    case True
    with l1 have l: "pg_sources (s_pages ?s1 pn) = remove1 m (pg_sources (s_pages s pn))" by simp
    show ?thesis unfolding f Cons.IH [OF d1] l using True idem by simp
  next
    case False
    with l1 have l: "pg_sources (s_pages ?s1 pn) = pg_sources (s_pages s pn)" by simp
    show ?thesis unfolding f Cons.IH [OF d1] l using False by simp
  qed
qed

lemma fold_unlink_source_next: "next_object (fold (unlink_source n) ps s) = next_object s"
  by (induction ps arbitrary: s) (simp_all add: unlink_source_def)

lemma destroy_update_writes_keeps_pages:
  "destroy_update_writes xxh src ws s = Inr s' \<Longrightarrow>
     s_pages s' = s_pages s \<and> next_object s' = next_object s"
proof (induction ws arbitrary: s)
  case Nil
  then show ?case by simp
next
  case (Cons vw ws)
  then show ?case by (auto split: option.splits sum.splits)
qed

lemma destroy_update_pages_keeps_pages:
  "destroy_update_pages xxh src ps s = Inr s' \<Longrightarrow>
     s_pages s' = s_pages s \<and> next_object s' = next_object s"
proof (induction ps arbitrary: s)
  case Nil
  then show ?case by simp
next
  case (Cons pn ps)
  from Cons.prems obtain s1 where
    w: "destroy_update_writes xxh src (writes (s_pages s pn)) s = Inr s1"
    and r: "destroy_update_pages xxh src ps s1 = Inr s'"
    by (auto split: sum.splits)
  from Cons.IH [OF r] destroy_update_writes_keeps_pages [OF w] show ?case by simp
qed

lemma DestroySource_pages:
  assumes d: "DestroySource xxh n s = Inr s'" and l: "live_sources s n = Some src"
    and dist: "distinct (pg_sources (s_pages s pn))"
  shows "next_object s' = next_object s"
    and "pg_sources (s_pages s' pn) =
           (if pn \<in> set (src_page_refs src) then remove1 n (pg_sources (s_pages s pn))
            else pg_sources (s_pages s pn))"
proof -
  from d l obtain s1 where
    s1: "(if dump_textures s \<and> active_uv_rect src \<noteq> INVALID_RECT \<and> \<not> dump_texture_pages s
          then destroy_update_pages xxh src (LoopRectPages (active_uv_rect src)) s
          else Inr s) = Inr s1"
    by (auto simp: DestroySource_def split: sum.splits)
  have k1: "s_pages s1 = s_pages s \<and> next_object s1 = next_object s"
    using s1 by (auto split: if_splits dest!: destroy_update_pages_keeps_pages)
  from d l s1 have s': "s_pages s' = s_pages (fold (unlink_source n) (src_page_refs src) s1)
                       \<and> next_object s' = next_object (fold (unlink_source n) (src_page_refs src) s1)"
    by (auto simp: DestroySource_def Let_def split: option.splits)
  from s' k1 show "next_object s' = next_object s"
    by (simp add: fold_unlink_source_next)
  from dist k1 have "distinct (pg_sources (s_pages s1 pn))" by simp
  from fold_unlink_source_pages [OF this] s' k1
  show "pg_sources (s_pages s' pn) =
           (if pn \<in> set (src_page_refs src) then remove1 n (pg_sources (s_pages s pn))
            else pg_sources (s_pages s pn))" by simp
qed

lemma DestroySource_shrinks:
  assumes d: "DestroySource xxh n s = Inr s'"
  shows "live_sources s' n = None"
    and "\<And>m src. live_sources s' m = Some src \<Longrightarrow> live_sources s m = Some src"
    and "\<And>k e'. map_of (s_hash_cache s') k = Some e' \<Longrightarrow>
           \<exists>e. map_of (s_hash_cache s) k = Some e \<and> set (sources e') \<subseteq> set (sources e)"
proof -
  from DestroySource_effect [OF d] obtain src where l: "live_sources s n = Some src"
    and c: "s_hash_cache s' = update_entry (from_hash_cache src)
              (\<lambda>e. e\<lparr>sources := remove1 n (sources e), ref_count := ref_count e - 1\<rparr>) (s_hash_cache s)"
    and ls: "live_sources s' = (live_sources s)(n := None)" by blast
  show "live_sources s' n = None" by (simp add: ls)
  show "\<And>m src. live_sources s' m = Some src \<Longrightarrow> live_sources s m = Some src"
    by (simp add: ls split: if_splits)
  show "\<And>k e'. map_of (s_hash_cache s') k = Some e' \<Longrightarrow>
           \<exists>e. map_of (s_hash_cache s) k = Some e \<and> set (sources e') \<subseteq> set (sources e)"
  proof -
    fix k e' assume m: "map_of (s_hash_cache s') k = Some e'"
    show "\<exists>e. map_of (s_hash_cache s) k = Some e \<and> set (sources e') \<subseteq> set (sources e)"
    proof (cases "k = from_hash_cache src")
      case True
      with m obtain z where z: "map_of (s_hash_cache s) k = Some z"
        and ez: "e' = z\<lparr>sources := remove1 n (sources z), ref_count := ref_count z - 1\<rparr>"
        by (auto simp: c map_of_update_entry)
      have "set (sources e') \<subseteq> set (sources z)"
        by (simp add: ez set_remove1_subset)
      with z show ?thesis by blast
    next
      case False
      with m have "map_of (s_hash_cache s) k = Some e'"
        by (simp add: c map_of_update_entry)
      then show ?thesis by blast
    qed
  qed
qed

lemma pages_okD:
  "pages_ok s \<Longrightarrow> m \<in> set (pg_sources (s_pages s pn)) \<Longrightarrow>
   \<exists>src. live_sources s m = Some src \<and> pn \<in> set (src_page_refs src)"
  unfolding pages_ok_def by blast

lemma DestroySource_ok:
  assumes d: "DestroySource xxh n s = Inr s'" and ok: "tracking_ok s"
  shows "tracking_ok s'"
proof -
  from DestroySource_effect [OF d] obtain src where l: "live_sources s n = Some src"
    and c: "s_hash_cache s' = update_entry (from_hash_cache src)
              (\<lambda>e. e\<lparr>sources := remove1 n (sources e), ref_count := ref_count e - 1\<rparr>) (s_hash_cache s)"
    and ls: "live_sources s' = (live_sources s)(n := None)" by blast
  from ok have fr: "ids_fresh s" and pg: "pages_ok s" and sl: "sources_listed s"
    by (simp_all add: tracking_ok_def)
  have dist: "\<And>pn. distinct (pg_sources (s_pages s pn))"
    using pg by (simp add: pages_ok_def)
  note nx = DestroySource_pages(1) [OF d l dist]
  note pp = DestroySource_pages(2) [OF d l dist]
  have "ids_fresh s'"
    using fr by (auto simp: ids_fresh_def ls nx)
  moreover have "pages_ok s'"
    unfolding pages_ok_def
  proof (intro allI conjI ballI)
    fix pn
    show "distinct (pg_sources (s_pages s' pn))"
      using dist [of pn] by (simp add: pp)
  next
    fix pn m assume m: "m \<in> set (pg_sources (s_pages s' pn))"
    have old: "m \<in> set (pg_sources (s_pages s pn))"
      using m by (auto simp: pp split: if_splits dest: set_remove1_subset [THEN subsetD])
    have ne: "m \<noteq> n"
    proof
      assume mn: "m = n"
      with pages_okD [OF pg old] l have "pn \<in> set (src_page_refs src)"
        by auto
      with m mn dist [of pn] show False by (simp add: pp)
    qed
    from pages_okD [OF pg old] obtain sm where "live_sources s m = Some sm" "pn \<in> set (src_page_refs sm)"
      by blast
    with ne show "\<exists>src. live_sources s' m = Some src \<and> pn \<in> set (src_page_refs src)"
      by (simp add: ls)
  qed
  moreover have "sources_listed s'"
    unfolding sources_listed_def
  proof (intro allI impI)
    fix m sm assume m: "live_sources s' m = Some sm"
    then have ne: "m \<noteq> n" and lm: "live_sources s m = Some sm"
      by (auto simp: ls split: if_splits)
    from sl lm obtain e where e: "map_of (s_hash_cache s) (from_hash_cache sm) = Some e"
      and me: "m \<in> set (sources e)"
      by (auto simp: sources_listed_def)
    show "\<exists>e. map_of (s_hash_cache s') (from_hash_cache sm) = Some e \<and> m \<in> set (sources e)"
      using e me ne by (auto simp: c map_of_update_entry)
  qed
  ultimately show ?thesis by (simp add: tracking_ok_def)
qed

lemma destroy_sources_shrinks:
  "destroy_sources xxh ns s = Inr s' \<Longrightarrow>
     (\<forall>n \<in> set ns. live_sources s' n = None) \<and>
     (\<forall>m src. live_sources s' m = Some src \<longrightarrow> live_sources s m = Some src) \<and>
     (\<forall>k e'. map_of (s_hash_cache s') k = Some e' \<longrightarrow>
           (\<exists>e. map_of (s_hash_cache s) k = Some e \<and> set (sources e') \<subseteq> set (sources e)))"
proof (induction ns arbitrary: s)
  case Nil
  then show ?case by simp
next
  case (Cons n ns)
  from Cons.prems obtain s1 where d: "DestroySource xxh n s = Inr s1"
    and r: "destroy_sources xxh ns s1 = Inr s'"
    by (auto split: sum.splits)
  note a = DestroySource_shrinks [OF d]
  note b = Cons.IH [OF r]
  have "live_sources s' n = None"
  proof (cases "live_sources s' n")
    case None
    then show ?thesis .
  next
    case (Some x)
    with b have "live_sources s1 n = Some x" by blast
    with a(1) show ?thesis by simp
  qed
  moreover have "\<forall>m src. live_sources s' m = Some src \<longrightarrow> live_sources s m = Some src"
    using a(2) b by blast
  moreover have "\<forall>k e'. map_of (s_hash_cache s') k = Some e' \<longrightarrow>
           (\<exists>e. map_of (s_hash_cache s) k = Some e \<and> set (sources e') \<subseteq> set (sources e))"
  proof (intro allI impI)
    fix k e' assume "map_of (s_hash_cache s') k = Some e'"
    with b obtain e1 where e1: "map_of (s_hash_cache s1) k = Some e1"
      and s1: "set (sources e') \<subseteq> set (sources e1)" by blast
    from a(3) [OF e1] obtain e where "map_of (s_hash_cache s) k = Some e"
      and "set (sources e1) \<subseteq> set (sources e)" by blast
    with s1 show "\<exists>e. map_of (s_hash_cache s) k = Some e \<and> set (sources e') \<subseteq> set (sources e)"
      by blast
  qed
  ultimately show ?case using b by simp
qed

lemma destroy_sources_ok:
  "destroy_sources xxh ns s = Inr s' \<Longrightarrow> tracking_ok s \<Longrightarrow> tracking_ok s'"
proof (induction ns arbitrary: s)
  case Nil
  then show ?case by simp
next
  case (Cons n ns)
  from Cons.prems(1) obtain s1 where d: "DestroySource xxh n s = Inr s1"
    and r: "destroy_sources xxh ns s1 = Inr s'"
    by (auto split: sum.splits)
  from Cons.IH [OF r DestroySource_ok [OF d Cons.prems(2)]] show ?case .
qed

lemma RemoveFromHashCache_parts:
  assumes r: "RemoveFromHashCache xxh it s = Inr s'"
  shows "\<exists>e0 s1 u. map_of (s_hash_cache s) it = Some e0 \<and>
           destroy_sources xxh (sources e0) s = Inr s1 \<and>
           s' = s1\<lparr>s_hash_cache_memory_usage := u,
                   s_hash_cache := filter (\<lambda>(k, _). k \<noteq> it) (s_hash_cache s1)\<rparr>"
  using r by (auto simp: RemoveFromHashCache_def split: option.splits sum.splits)

lemma RemoveFromHashCache_shrinks:
  assumes r: "RemoveFromHashCache xxh it s = Inr s'"
  shows "\<forall>m src. live_sources s' m = Some src \<longrightarrow> live_sources s m = Some src"
proof -
  from RemoveFromHashCache_parts [OF r] obtain e0 :: HashCacheEntry and s1 u where
    d: "destroy_sources xxh (sources e0) s = Inr s1"
    and s': "s' = s1\<lparr>s_hash_cache_memory_usage := u,
                   s_hash_cache := filter (\<lambda>(k, _). k \<noteq> it) (s_hash_cache s1)\<rparr>" by blast
  from destroy_sources_shrinks [OF d] show ?thesis by (simp add: s')
qed

lemma RemoveFromHashCache_ok:
  assumes r: "RemoveFromHashCache xxh it s = Inr s'" and ok: "tracking_ok s"
  shows "tracking_ok s'"
proof -
  from RemoveFromHashCache_parts [OF r] obtain e0 :: HashCacheEntry and s1 u where
    e0: "map_of (s_hash_cache s) it = Some e0"
    and d: "destroy_sources xxh (sources e0) s = Inr s1"
    and s': "s' = s1\<lparr>s_hash_cache_memory_usage := u,
                   s_hash_cache := filter (\<lambda>(k, _). k \<noteq> it) (s_hash_cache s1)\<rparr>" by blast
  note ok1 = destroy_sources_ok [OF d ok]
  note sh = destroy_sources_shrinks [OF d]
  from ok1 have fr: "ids_fresh s1" and pg: "pages_ok s1" and sl: "sources_listed s1"
    by (simp_all add: tracking_ok_def)
  have "ids_fresh s'" using fr by (simp add: ids_fresh_def s')
  moreover have "pages_ok s'" using pg by (simp add: pages_ok_def s')
  moreover have "sources_listed s'"
    unfolding sources_listed_def
  proof (intro allI impI)
    fix m sm assume "live_sources s' m = Some sm"
    then have lm: "live_sources s1 m = Some sm" by (simp add: s')
    from sl lm obtain e where e: "map_of (s_hash_cache s1) (from_hash_cache sm) = Some e"
      and me: "m \<in> set (sources e)"
      by (auto simp: sources_listed_def)
    have ne: "from_hash_cache sm \<noteq> it"
    proof
      assume eq: "from_hash_cache sm = it"
      from sh e eq obtain e' where "map_of (s_hash_cache s) it = Some e'"
        and "set (sources e) \<subseteq> set (sources e')" by blast
      with e0 me have "m \<in> set (sources e0)" by auto
      with sh have "live_sources s1 m = None" by blast
      with lm show False by simp
    qed
    with e me show "\<exists>e. map_of (s_hash_cache s') (from_hash_cache sm) = Some e \<and> m \<in> set (sources e)"
      by (simp add: s' map_of_filter_key)
  qed
  ultimately show ?thesis by (simp add: tracking_ok_def)
qed

lemma compact_loop_ok:
  "compact_loop xxh m ks (b, pl, s) = Inr (b', pl', s') \<Longrightarrow> tracking_ok s \<Longrightarrow>
   tracking_ok s' \<and> (\<forall>n src. live_sources s' n = Some src \<longrightarrow> live_sources s n = Some src)"
proof (induction ks arbitrary: b pl s)
  case Nil
  then show ?case by simp
next
  case (Cons it ks)
  from Cons.prems(1) obtain ei where ei: "map_of (s_hash_cache s) it = Some ei"
    by (auto split: option.splits)
  show ?case
  proof (cases "ref_count ei = 0 \<and> last_used_frame ei < m")
    case True
    with Cons.prems(1) ei obtain s1 where r: "RemoveFromHashCache xxh it s = Inr s1"
      and l: "compact_loop xxh m ks (b, pl, s1) = Inr (b', pl', s')"
      by (auto split: sum.splits)
    from Cons.IH [OF l RemoveFromHashCache_ok [OF r Cons.prems(2)]]
      RemoveFromHashCache_shrinks [OF r]
    show ?thesis by blast
  next
    case False
    with Cons.prems(1) ei obtain b1 pl1 where
      l: "compact_loop xxh m ks (b1, pl1, s) = Inr (b', pl', s')"
      by (auto split: if_splits)
    from Cons.IH [OF l Cons.prems(2)] show ?thesis .
  qed
qed

lemma purge_loop_ok:
  "purge_loop xxh l s = Inr s' \<Longrightarrow> tracking_ok s \<Longrightarrow>
   tracking_ok s' \<and> (\<forall>n src. live_sources s' n = Some src \<longrightarrow> live_sources s n = Some src)"
proof (induction l arbitrary: s)
  case Nil
  then show ?case by simp
next
  case (Cons p l)
  show ?case
  proof (cases "over_budget s")
    case True
    with Cons.prems(1) obtain s1 where r: "RemoveFromHashCache xxh (fst p) s = Inr s1"
      and l: "purge_loop xxh l s1 = Inr s'"
      by (auto split: sum.splits)
    from Cons.IH [OF l RemoveFromHashCache_ok [OF r Cons.prems(2)]]
      RemoveFromHashCache_shrinks [OF r]
    show ?thesis by blast
  next
    case False
    with Cons.prems show ?thesis by simp
  qed
qed

lemma DestroySource_keeps:
  assumes d: "DestroySource xxh m s = Inr s'" and h: "is_source_for s k n"
    and alive: "live_sources s' n \<noteq> None"
  shows "is_source_for s' k n"
proof -
  from h have ok: "tracking_ok s"
    and f: "find_source (live_sources s) k (pg_sources (s_pages s (page k))) = Inr (Some n)"
    by (simp_all add: is_source_for_def)
  from DestroySource_effect [OF d] obtain src where l: "live_sources s m = Some src"
    and ls: "live_sources s' = (live_sources s)(m := None)" by blast
  from ok have pg: "pages_ok s" by (simp add: tracking_ok_def)
  have dist: "\<And>pn. distinct (pg_sources (s_pages s pn))"
    using pg by (simp add: pages_ok_def)
  note pp = DestroySource_pages(2) [OF d l dist]
  from alive have ne: "m \<noteq> n" by (auto simp: ls)
  have "pg_sources (s_pages s' (page k)) = remove1 m (pg_sources (s_pages s (page k)))"
  proof (cases "page k \<in> set (src_page_refs src)")
    case True
    then show ?thesis by (simp add: pp)
  next
    case False
    have "m \<notin> set (pg_sources (s_pages s (page k)))"
    proof
      assume "m \<in> set (pg_sources (s_pages s (page k)))"
      from pages_okD [OF pg this] l False show False by auto
    qed
    with False show ?thesis by (simp add: pp remove1_idem)
  qed
  with find_source_remove_dead [OF f ne dist]
  have "find_source (live_sources s') k (pg_sources (s_pages s' (page k))) = Inr (Some n)"
    by (simp add: ls)
  with DestroySource_ok [OF d ok] show ?thesis by (simp add: is_source_for_def)
qed

lemma destroy_sources_keeps:
  "destroy_sources xxh ns s = Inr s' \<Longrightarrow> is_source_for s k n \<Longrightarrow> live_sources s' n \<noteq> None \<Longrightarrow>
   is_source_for s' k n"
proof (induction ns arbitrary: s)
  case Nil
  then show ?case by simp
next
  case (Cons m ns)
  from Cons.prems(1) obtain s1 where d: "DestroySource xxh m s = Inr s1"
    and r: "destroy_sources xxh ns s1 = Inr s'"
    by (auto split: sum.splits)
  from destroy_sources_shrinks [OF r] Cons.prems(3) have "live_sources s1 n \<noteq> None" by auto
  from Cons.IH [OF r DestroySource_keeps [OF d Cons.prems(2) this] Cons.prems(3)] show ?case .
qed

lemma RemoveFromHashCache_keeps:
  assumes r: "RemoveFromHashCache xxh it s = Inr s'" and h: "is_source_for s k n"
    and alive: "live_sources s' n \<noteq> None"
  shows "is_source_for s' k n"
proof -
  from RemoveFromHashCache_parts [OF r] obtain e0 :: HashCacheEntry and s1 u where
    d: "destroy_sources xxh (sources e0) s = Inr s1"
    and s': "s' = s1\<lparr>s_hash_cache_memory_usage := u,
                   s_hash_cache := filter (\<lambda>(k, _). k \<noteq> it) (s_hash_cache s1)\<rparr>" by blast
  from alive have "live_sources s1 n \<noteq> None" by (simp add: s')
  from destroy_sources_keeps [OF d h this]
  have "find_source (live_sources s') k (pg_sources (s_pages s' (page k))) = Inr (Some n)"
    by (simp add: is_source_for_def s')
  moreover from h have "tracking_ok s" by (simp add: is_source_for_def)
  note RemoveFromHashCache_ok [OF r this]
  ultimately show ?thesis by (simp add: is_source_for_def)
qed

lemma compact_loop_keeps:
  "compact_loop xxh m ks (b, pl, s) = Inr (b', pl', s') \<Longrightarrow> is_source_for s k n \<Longrightarrow>
   live_sources s' n \<noteq> None \<Longrightarrow> is_source_for s' k n"
proof (induction ks arbitrary: b pl s)
  case Nil
  then show ?case by simp
next
  case (Cons it ks)
  from Cons.prems(1) obtain ei where ei: "map_of (s_hash_cache s) it = Some ei"
    by (auto split: option.splits)
  show ?case
  proof (cases "ref_count ei = 0 \<and> last_used_frame ei < m")
    case True
    with Cons.prems(1) ei obtain s1 where r: "RemoveFromHashCache xxh it s = Inr s1"
      and l: "compact_loop xxh m ks (b, pl, s1) = Inr (b', pl', s')"
      by (auto split: sum.splits)
    from Cons.prems(2) have "tracking_ok s" by (simp add: is_source_for_def)
    from compact_loop_ok [OF l RemoveFromHashCache_ok [OF r this]] Cons.prems(3)
    have "live_sources s1 n \<noteq> None" by auto
    from Cons.IH [OF l RemoveFromHashCache_keeps [OF r Cons.prems(2) this] Cons.prems(3)]
    show ?thesis .
  next
    case False
    with Cons.prems(1) ei obtain b1 pl1 where
      l: "compact_loop xxh m ks (b1, pl1, s) = Inr (b', pl', s')"
      by (auto split: if_splits)
    from Cons.IH [OF l Cons.prems(2,3)] show ?thesis .
  qed
qed

lemma purge_loop_keeps:
  "purge_loop xxh l s = Inr s' \<Longrightarrow> is_source_for s k n \<Longrightarrow>
   live_sources s' n \<noteq> None \<Longrightarrow> is_source_for s' k n"
proof (induction l arbitrary: s)
  case Nil
  then show ?case by simp
next
  case (Cons p l)
  show ?case
  proof (cases "over_budget s")
    case True
    with Cons.prems(1) obtain s1 where r: "RemoveFromHashCache xxh (fst p) s = Inr s1"
      and l: "purge_loop xxh l s1 = Inr s'"
      by (auto split: sum.splits)
    from Cons.prems(2) have "tracking_ok s" by (simp add: is_source_for_def)
    from purge_loop_ok [OF l RemoveFromHashCache_ok [OF r this]] Cons.prems(3)
    have "live_sources s1 n \<noteq> None" by auto
    from Cons.IH [OF l RemoveFromHashCache_keeps [OF r Cons.prems(2) this] Cons.prems(3)]
    show ?thesis .
  next
    case False
    with Cons.prems show ?thesis by simp
  qed
qed

lemma Compact_parts:
  assumes "Compact xxh frame_number s = Inr s'"
  shows "\<exists>b pl s1. compact_loop xxh (if frame_number > MAX_HASH_CACHE_AGE then frame_number - MAX_HASH_CACHE_AGE else 0)
                 (map fst (s_hash_cache s)) (over_budget s, [], s) = Inr (b, pl, s1) \<and>
               (if b then purge_loop xxh (sort_key snd pl) s1 else Inr s1) = Inr s'"
proof (cases "compact_loop xxh (if frame_number > MAX_HASH_CACHE_AGE then frame_number - MAX_HASH_CACHE_AGE else 0)
                 (map fst (s_hash_cache s)) (over_budget s, [], s)")
  case (Inl f)
  with assms show ?thesis by (simp add: Compact_def Let_def)
next
  case (Inr x)
  obtain b pl s1 where x: "x = (b, pl, s1)" by (cases x)
  from assms Inr x have "(if b then purge_loop xxh (sort_key snd pl) s1 else Inr s1) = Inr s'"
    by (simp add: Compact_def Let_def)
  with Inr x show ?thesis by blast
qed

lemma Compact_ok:
  assumes c: "Compact xxh frame_number s = Inr s'" and ok: "tracking_ok s"
  shows "tracking_ok s'"
proof -
  from Compact_parts [OF c] obtain b pl s1 where
    l: "compact_loop xxh (if frame_number > MAX_HASH_CACHE_AGE then frame_number - MAX_HASH_CACHE_AGE else 0)
                 (map fst (s_hash_cache s)) (over_budget s, [], s) = Inr (b, pl, s1)"
    and p: "(if b then purge_loop xxh (sort_key snd pl) s1 else Inr s1) = Inr s'" by blast
  note ok1 = compact_loop_ok [OF l ok]
  show ?thesis
  proof (cases b)
    case True
    with p have "purge_loop xxh (sort_key snd pl) s1 = Inr s'" by simp
    from purge_loop_ok [OF this] ok1 show ?thesis by blast
  next
    case False
    with p ok1 show ?thesis by simp
  qed
qed

lemma Compact_keeps:
  assumes c: "Compact xxh frame_number s = Inr s'" and h: "is_source_for s k n"
    and alive: "live_sources s' n \<noteq> None"
  shows "is_source_for s' k n"
proof -
  from Compact_parts [OF c] obtain b pl s1 where
    l: "compact_loop xxh (if frame_number > MAX_HASH_CACHE_AGE then frame_number - MAX_HASH_CACHE_AGE else 0)
                 (map fst (s_hash_cache s)) (over_budget s, [], s) = Inr (b, pl, s1)"
    and p: "(if b then purge_loop xxh (sort_key snd pl) s1 else Inr s1) = Inr s'" by blast
  from h have ok: "tracking_ok s" by (simp add: is_source_for_def)
  note ok1 = compact_loop_ok [OF l ok]
  show ?thesis
  proof (cases b)
    case True
    with p have pl: "purge_loop xxh (sort_key snd pl) s1 = Inr s'" by simp
    from purge_loop_ok [OF pl] ok1 alive have "live_sources s1 n \<noteq> None" by auto
    from purge_loop_keeps [OF pl compact_loop_keeps [OF l h this] alive] show ?thesis .
  next
    case False
    with p have "s' = s1" by simp
    with compact_loop_keeps [OF l h] alive show ?thesis by simp
  qed
qed

lemma ReturnSource_effect:
  assumes "ReturnSource s r uv fl fr = Inr (m, s')"
  shows "r = Some m \<and> s_pages s' = s_pages s \<and> next_object s' = next_object s \<and>
         (\<exists>src src'. live_sources s m = Some src \<and> live_sources s' = (live_sources s)(m \<mapsto> src') \<and>
            key src' = key src \<and> from_hash_cache src' = from_hash_cache src \<and>
            src_page_refs src' = src_page_refs src \<and>
            map_of (s_hash_cache s) (from_hash_cache src) \<noteq> None \<and>
            s_hash_cache s' = update_entry (from_hash_cache src) (\<lambda>e. e\<lparr>last_used_frame := fr\<rparr>)
                                (s_hash_cache s))"
proof -
  from assms obtain n where r: "r = Some n" by (cases r) (auto simp: ReturnSource_def)
  from assms r obtain src where l: "live_sources s n = Some src"
    by (cases "live_sources s n") (auto simp: ReturnSource_def)
  from assms r l obtain e where e: "map_of (s_hash_cache s) (from_hash_cache src) = Some e"
    by (cases "map_of (s_hash_cache s) (from_hash_cache src)") (auto simp: ReturnSource_def)
  show ?thesis
  proof (cases "dump_textures s")
    case True
    with assms r l e show ?thesis
      by (auto simp: ReturnSource_def Let_def)
  next
    case False
    have "live_sources s = (live_sources s)(n \<mapsto> src)"
      using l by (simp add: map_upd_triv)
    with False assms r l e show ?thesis
      by (auto simp: ReturnSource_def Let_def)
  qed
qed

lemma ReturnSource_keeps_ok:
  assumes r: "ReturnSource s r uv fl fr = Inr (m, s')" and ok: "tracking_ok s"
  shows "tracking_ok s'"
    and "\<And>k xs. find_source (live_sources s') k xs = find_source (live_sources s) k xs"
    and "length (s_hash_cache s') = length (s_hash_cache s)"
proof -
  from ReturnSource_effect [OF r] obtain src src' where
    pg: "s_pages s' = s_pages s" and nx: "next_object s' = next_object s"
    and l: "live_sources s m = Some src" and ls: "live_sources s' = (live_sources s)(m \<mapsto> src')"
    and ky: "key src' = key src" and fh: "from_hash_cache src' = from_hash_cache src"
    and rf: "src_page_refs src' = src_page_refs src"
    and c: "s_hash_cache s' = update_entry (from_hash_cache src) (\<lambda>e. e\<lparr>last_used_frame := fr\<rparr>)
                                (s_hash_cache s)"
    by blast
  from ok have fr: "ids_fresh s" and po: "pages_ok s" and sl: "sources_listed s"
    by (simp_all add: tracking_ok_def)
  have "ids_fresh s'"
    using fr l by (auto simp: ids_fresh_def ls nx)
  moreover have "pages_ok s'"
    unfolding pages_ok_def
  proof (intro allI conjI ballI)
    fix pn show "distinct (pg_sources (s_pages s' pn))"
      using po by (simp add: pages_ok_def pg)
  next
    fix pn x assume "x \<in> set (pg_sources (s_pages s' pn))"
    then have "x \<in> set (pg_sources (s_pages s pn))" by (simp add: pg)
    from pages_okD [OF po this] obtain sx where sx: "live_sources s x = Some sx"
      and px: "pn \<in> set (src_page_refs sx)" by blast
    show "\<exists>src. live_sources s' x = Some src \<and> pn \<in> set (src_page_refs src)"
      using sx px l rf by (cases "x = m") (simp_all add: ls)
  qed
  moreover have "sources_listed s'"
    unfolding sources_listed_def
  proof (intro allI impI)
    fix x sx assume x: "live_sources s' x = Some sx"
    have "\<exists>s0. live_sources s x = Some s0 \<and> from_hash_cache s0 = from_hash_cache sx"
      using x l fh by (cases "x = m") (auto simp: ls)
    then obtain s0 where s0: "live_sources s x = Some s0"
      and f0: "from_hash_cache s0 = from_hash_cache sx" by blast
    from sl s0 obtain e where e: "map_of (s_hash_cache s) (from_hash_cache s0) = Some e"
      and xe: "x \<in> set (sources e)" by (auto simp: sources_listed_def)
    show "\<exists>e. map_of (s_hash_cache s') (from_hash_cache sx) = Some e \<and> x \<in> set (sources e)"
      using e xe f0 by (auto simp: c map_of_update_entry)
  qed
  ultimately show "tracking_ok s'" by (simp add: tracking_ok_def)
  show "\<And>k xs. find_source (live_sources s') k xs = find_source (live_sources s) k xs"
    by (rule find_source_cong) (simp add: ls l ky)
  show "length (s_hash_cache s') = length (s_hash_cache s)"
    by (simp add: c length_update_entry)
qed

lemma fold_add_page_ref_lists:
  "fold (add_page_ref m) pns (refs, s) = (refs', s') \<Longrightarrow>
     set refs \<subseteq> set refs' \<and> live_sources s' = live_sources s \<and> s_hash_cache s' = s_hash_cache s \<and>
     next_object s' = next_object s \<and>
     (\<forall>pn. pg_sources (s_pages s' pn) = pg_sources (s_pages s pn) \<or>
           (pn \<in> set refs' \<and> pn \<notin> set refs \<and> pg_sources (s_pages s' pn) = m # pg_sources (s_pages s pn)))"
proof (induction pns arbitrary: refs s)
  case Nil
  then show ?case by simp
next
  case (Cons p pns)
  obtain r1 s1 where st: "add_page_ref m p (refs, s) = (r1, s1)"
    by (cases "add_page_ref m p (refs, s)")
  with Cons.prems have f: "fold (add_page_ref m) pns (r1, s1) = (refs', s')" by simp
  note ih = Cons.IH [OF f]
  show ?case
  proof (cases "p \<in> set refs")
    case True
    with st have "r1 = refs" "s1 = s" by (simp_all add: add_page_ref_def)
    with ih show ?thesis by simp
  next
    case False
    with st have r1: "r1 = refs @ [p]"
      and s1: "s1 = s\<lparr>s_pages := (s_pages s)(p := (s_pages s p)\<lparr>pg_sources := m # pg_sources (s_pages s p)\<rparr>)\<rparr>"
      by (simp_all add: add_page_ref_def)
    have "\<forall>pn. pg_sources (s_pages s' pn) = pg_sources (s_pages s pn) \<or>
           (pn \<in> set refs' \<and> pn \<notin> set refs \<and> pg_sources (s_pages s' pn) = m # pg_sources (s_pages s pn))"
    proof
      fix pn
      show "pg_sources (s_pages s' pn) = pg_sources (s_pages s pn) \<or>
           (pn \<in> set refs' \<and> pn \<notin> set refs \<and> pg_sources (s_pages s' pn) = m # pg_sources (s_pages s pn))"
      proof (cases "pn = p")
        case True
        from ih have "pg_sources (s_pages s' p) = pg_sources (s_pages s1 p)"
          by (auto simp: r1)
        moreover from ih have "p \<in> set refs'" by (auto simp: r1)
        ultimately show ?thesis using True False by (simp add: s1)
      next
        case ne: False
        then have e: "pg_sources (s_pages s1 pn) = pg_sources (s_pages s pn)" by (simp add: s1)
        from ih have "pg_sources (s_pages s' pn) = pg_sources (s_pages s1 pn) \<or>
           (pn \<in> set refs' \<and> pn \<notin> set r1 \<and> pg_sources (s_pages s' pn) = m # pg_sources (s_pages s1 pn))"
          by blast
        with e show ?thesis by (auto simp: r1)
      qed
    qed
    with ih show ?thesis by (auto simp: r1 s1)
  qed
qed

lemma fold_add_page_ref_back_lists:
  "fold (add_page_ref_back m) pns (refs, s) = (refs', s') \<Longrightarrow>
     set refs \<subseteq> set refs' \<and> live_sources s' = live_sources s \<and> s_hash_cache s' = s_hash_cache s \<and>
     next_object s' = next_object s \<and>
     (\<forall>pn. pg_sources (s_pages s' pn) = pg_sources (s_pages s pn) \<or>
           (pn \<in> set refs' \<and> pn \<notin> set refs \<and> pg_sources (s_pages s' pn) = pg_sources (s_pages s pn) @ [m]))"
proof (induction pns arbitrary: refs s)
  case Nil
  then show ?case by simp
next
  case (Cons p pns)
  obtain r1 s1 where st: "add_page_ref_back m p (refs, s) = (r1, s1)"
    by (cases "add_page_ref_back m p (refs, s)")
  with Cons.prems have f: "fold (add_page_ref_back m) pns (r1, s1) = (refs', s')" by simp
  note ih = Cons.IH [OF f]
  show ?case
  proof (cases "p \<in> set refs")
    case True
    with st have "r1 = refs" "s1 = s" by (simp_all add: add_page_ref_back_def)
    with ih show ?thesis by simp
  next
    case False
    with st have r1: "r1 = refs @ [p]"
      and s1: "s1 = s\<lparr>s_pages := (s_pages s)(p := (s_pages s p)\<lparr>pg_sources := pg_sources (s_pages s p) @ [m]\<rparr>)\<rparr>"
      by (simp_all add: add_page_ref_back_def)
    have "\<forall>pn. pg_sources (s_pages s' pn) = pg_sources (s_pages s pn) \<or>
           (pn \<in> set refs' \<and> pn \<notin> set refs \<and> pg_sources (s_pages s' pn) = pg_sources (s_pages s pn) @ [m])"
    proof
      fix pn
      show "pg_sources (s_pages s' pn) = pg_sources (s_pages s pn) \<or>
           (pn \<in> set refs' \<and> pn \<notin> set refs \<and> pg_sources (s_pages s' pn) = pg_sources (s_pages s pn) @ [m])"
      proof (cases "pn = p")
        case True
        from ih have "pg_sources (s_pages s' p) = pg_sources (s_pages s1 p)"
          by (auto simp: r1)
        moreover from ih have "p \<in> set refs'" by (auto simp: r1)
        ultimately show ?thesis using True False by (simp add: s1)
      next
        case ne: False
        then have e: "pg_sources (s_pages s1 pn) = pg_sources (s_pages s pn)" by (simp add: s1)
        from ih have "pg_sources (s_pages s' pn) = pg_sources (s_pages s1 pn) \<or>
           (pn \<in> set refs' \<and> pn \<notin> set r1 \<and> pg_sources (s_pages s' pn) = pg_sources (s_pages s1 pn) @ [m])"
          by blast
        with e show ?thesis by (auto simp: r1)
      qed
    qed
    with ih show ?thesis by (auto simp: r1 s1)
  qed
qed

lemma LookupHashCache_effect:
  assumes "LookupHashCache s k th ph tex = (Some hk, s1)"
  shows "map_of (s_hash_cache s1) hk \<noteq> None \<and> s_pages s1 = s_pages s \<and>
         live_sources s1 = live_sources s \<and> next_object s1 = next_object s \<and>
         (\<forall>k' e. map_of (s_hash_cache s) k' = Some e \<longrightarrow> map_of (s_hash_cache s1) k' = Some e)"
  using assms
  by (auto simp: LookupHashCache_def Let_def map_add_def split: option.splits)

lemma CreateSource_effect:
  assumes cs: "CreateSource xxh s k tex = Inr (Some n, s')"
  shows "n = next_object s \<and> next_object s' = Suc n \<and>
         (\<exists>ns. live_sources s' = (live_sources s)(n \<mapsto> ns) \<and> key ns = k \<and>
            (\<forall>pn. pg_sources (s_pages s' pn) = pg_sources (s_pages s pn) \<or>
                  (pn \<in> set (src_page_refs ns) \<and>
                   (pg_sources (s_pages s' pn) = n # pg_sources (s_pages s pn) \<or>
                    pg_sources (s_pages s' pn) = pg_sources (s_pages s pn) @ [n]))) \<and>
            (\<exists>e. map_of (s_hash_cache s') (from_hash_cache ns) = Some e \<and> n \<in> set (sources e)) \<and>
            (\<forall>k' e. map_of (s_hash_cache s) k' = Some e \<longrightarrow>
               (\<exists>e'. map_of (s_hash_cache s') k' = Some e' \<and> set (sources e) \<subseteq> set (sources e'))))"
proof -
  from cs obtain th where th: "HashPage xxh (g_vram s) (page k) (mode k) = Inr th"
    by (auto simp: CreateSource_def split: sum.splits)
  from cs th obtain ph where
    ph: "(if TextureModeHasPalette (mode k) then HashPalette xxh (g_vram s) (palette k) (mode k) else Inr 0) = Inr ph"
    by (auto simp: CreateSource_def split: sum.splits)
  obtain r s1 where lh: "LookupHashCache s k th ph tex = (r, s1)"
    by (cases "LookupHashCache s k th ph tex")
  from cs th ph lh obtain hk where r: "r = Some hk"
    by (cases r) (auto simp: CreateSource_def)
  note lhs = LookupHashCache_effect [OF lh [unfolded r]]
  let ?src = "next_object s1"
  let ?s2 = "s1\<lparr>next_object := Suc ?src,
                s_hash_cache := update_entry hk
                   (\<lambda>e. e\<lparr>ref_count := ref_count e + 1, sources := sources e @ [?src]\<rparr>)
                   (s_hash_cache s1)\<rparr>"
  obtain refs1 s3 where f1: "fold (add_page_ref ?src)
       (LoopXWrappedPages (page k) (TexturePageCountForMode (mode k))) ([], ?s2) = (refs1, s3)"
    by (cases "fold (add_page_ref ?src)
       (LoopXWrappedPages (page k) (TexturePageCountForMode (mode k))) ([], ?s2)")
  note p1 = fold_add_page_ref_lists [OF f1]
  obtain refs2 s4 where f2: "(if TextureModeHasPalette (mode k)
                              then fold (add_page_ref_back ?src)
                                     (LoopXWrappedPages (PalettePageNumber (palette k))
                                        (PalettePageCountForMode (mode k))) (refs1, s3)
                              else (refs1, s3)) = (refs2, s4)"
    by (cases "(if TextureModeHasPalette (mode k)
                              then fold (add_page_ref_back ?src)
                                     (LoopXWrappedPages (PalettePageNumber (palette k))
                                        (PalettePageCountForMode (mode k))) (refs1, s3)
                              else (refs1, s3))")
  have p2: "set refs1 \<subseteq> set refs2 \<and> live_sources s4 = live_sources s3 \<and>
            s_hash_cache s4 = s_hash_cache s3 \<and> next_object s4 = next_object s3 \<and>
            (\<forall>pn. pg_sources (s_pages s4 pn) = pg_sources (s_pages s3 pn) \<or>
              (pn \<in> set refs2 \<and> pn \<notin> set refs1 \<and>
               pg_sources (s_pages s4 pn) = pg_sources (s_pages s3 pn) @ [?src]))"
  proof (cases "TextureModeHasPalette (mode k)")
    case True
    with f2 have "fold (add_page_ref_back ?src)
                    (LoopXWrappedPages (PalettePageNumber (palette k)) (PalettePageCountForMode (mode k)))
                    (refs1, s3) = (refs2, s4)" by simp
    from fold_add_page_ref_back_lists [OF this] show ?thesis .
  next
    case False
    with f2 show ?thesis by simp
  qed
  have res: "n = ?src \<and> (\<exists>ns. s' = s4\<lparr>live_sources := (live_sources s4)(?src \<mapsto> ns)\<rparr> \<and> key ns = k \<and>
                 from_hash_cache ns = hk \<and> src_page_refs ns = refs2)"
    using cs th ph lh r f1 f2
    by (cases "TextureModeHasPalette (mode k)") (auto simp: CreateSource_def Let_def)
  then obtain ns where n: "n = ?src" and s': "s' = s4\<lparr>live_sources := (live_sources s4)(?src \<mapsto> ns)\<rparr>"
    and kn: "key ns = k" and hn: "from_hash_cache ns = hk" and rn: "src_page_refs ns = refs2" by blast
  have n0: "n = next_object s" using n lhs by simp
  have nx: "next_object s' = Suc n" using p1 p2 by (simp add: s' n)
  have lv: "live_sources s' = (live_sources s)(n \<mapsto> ns)"
    using p1 p2 lhs by (simp add: s' n)
  have ch: "s_hash_cache s' = update_entry hk
                   (\<lambda>e. e\<lparr>ref_count := ref_count e + 1, sources := sources e @ [n]\<rparr>) (s_hash_cache s1)"
    using p1 p2 by (simp add: s' n)
  have pgs: "\<forall>pn. pg_sources (s_pages s' pn) = pg_sources (s_pages s pn) \<or>
                  (pn \<in> set (src_page_refs ns) \<and>
                   (pg_sources (s_pages s' pn) = n # pg_sources (s_pages s pn) \<or>
                    pg_sources (s_pages s' pn) = pg_sources (s_pages s pn) @ [n]))"
  proof
    fix pn
    from p1 have "pg_sources (s_pages s3 pn) = pg_sources (s_pages ?s2 pn) \<or>
           (pn \<in> set refs1 \<and> pn \<notin> set [] \<and> pg_sources (s_pages s3 pn) = ?src # pg_sources (s_pages ?s2 pn))"
      by blast
    then have a: "pg_sources (s_pages s3 pn) = pg_sources (s_pages s pn) \<or>
           (pn \<in> set refs1 \<and> pg_sources (s_pages s3 pn) = n # pg_sources (s_pages s pn))"
      using lhs by (auto simp: n)
    from p2 have "pg_sources (s_pages s4 pn) = pg_sources (s_pages s3 pn) \<or>
              (pn \<in> set refs2 \<and> pn \<notin> set refs1 \<and>
               pg_sources (s_pages s4 pn) = pg_sources (s_pages s3 pn) @ [?src])"
      by blast
    then have b: "pg_sources (s_pages s' pn) = pg_sources (s_pages s3 pn) \<or>
              (pn \<in> set refs2 \<and> pn \<notin> set refs1 \<and>
               pg_sources (s_pages s' pn) = pg_sources (s_pages s3 pn) @ [n])"
      by (auto simp: s' n)
    from a b p2 show "pg_sources (s_pages s' pn) = pg_sources (s_pages s pn) \<or>
                  (pn \<in> set (src_page_refs ns) \<and>
                   (pg_sources (s_pages s' pn) = n # pg_sources (s_pages s pn) \<or>
                    pg_sources (s_pages s' pn) = pg_sources (s_pages s pn) @ [n]))"
      by (auto simp: rn)
  qed
  from lhs obtain e1 where e1: "map_of (s_hash_cache s1) hk = Some e1" by auto
  have ent: "\<exists>e. map_of (s_hash_cache s') (from_hash_cache ns) = Some e \<and> n \<in> set (sources e)"
    using e1 by (simp add: ch hn map_of_update_entry)
  have old: "\<forall>k' e. map_of (s_hash_cache s) k' = Some e \<longrightarrow>
               (\<exists>e'. map_of (s_hash_cache s') k' = Some e' \<and> set (sources e) \<subseteq> set (sources e'))"
  proof (intro allI impI)
    fix k' e assume "map_of (s_hash_cache s) k' = Some e"
    with lhs have "map_of (s_hash_cache s1) k' = Some e" by blast
    then show "\<exists>e'. map_of (s_hash_cache s') k' = Some e' \<and> set (sources e) \<subseteq> set (sources e')"
      by (auto simp: ch map_of_update_entry)
  qed
  from n0 nx lv kn pgs ent old show ?thesis by blast
qed

lemma LookupSource_cases:
  assumes l: "LookupSource xxh s k r f tex fr = Inr (n, s')"
  shows "(find_source (live_sources s) k (pg_sources (s_pages s (page k))) = Inr (Some n) \<and>
          ReturnSource (s\<lparr>s_pages := (s_pages s)(page k := (s_pages s (page k))
               \<lparr>pg_sources := ListMoveToFront n (pg_sources (s_pages s (page k)))\<rparr>)\<rparr>) (Some n) r f fr
            = Inr (n, s'))
       \<or> (find_source (live_sources s) k (pg_sources (s_pages s (page k))) = Inr None \<and>
          (\<exists>s1. CreateSource xxh s k tex = Inr (Some n, s1) \<and> ReturnSource s1 (Some n) r f fr = Inr (n, s')))"
proof (cases "find_source (live_sources s) k (pg_sources (s_pages s (page k)))")
  case (Inl a)
  with l show ?thesis by (simp add: LookupSource_def)
next
  case (Inr found)
  show ?thesis
  proof (cases found)
    case None
    with l Inr obtain src s1 where c: "CreateSource xxh s k tex = Inr (src, s1)"
      and r: "ReturnSource s1 src r f fr = Inr (n, s')"
      by (auto simp: LookupSource_def split: sum.splits)
    from ReturnSource_Inr [OF r] have "src = Some n" by simp
    with c r Inr None show ?thesis by simp
  next
    case (Some m)
    with l Inr have r: "ReturnSource (s\<lparr>s_pages := (s_pages s)(page k := (s_pages s (page k))
               \<lparr>pg_sources := ListMoveToFront m (pg_sources (s_pages s (page k)))\<rparr>)\<rparr>) (Some m) r f fr
            = Inr (n, s')"
      by (simp add: LookupSource_def Let_def)
    from ReturnSource_Inr [OF r] have "m = n" by simp
    with r Inr Some show ?thesis by simp
  qed
qed

lemma ListMoveToFront_set: "n \<in> set xs \<Longrightarrow> set (ListMoveToFront n xs) = set xs"
  by (cases xs) (auto simp: ListMoveToFront_def)

lemma ListMoveToFront_distinct: "distinct xs \<Longrightarrow> distinct (ListMoveToFront n xs)"
  by (cases xs) (auto simp: ListMoveToFront_def)

lemma move_to_front_ok:
  assumes ok: "tracking_ok s" and n: "n \<in> set (pg_sources (s_pages s pg))"
  shows "tracking_ok (s\<lparr>s_pages := (s_pages s)(pg := (s_pages s pg)
               \<lparr>pg_sources := ListMoveToFront n (pg_sources (s_pages s pg))\<rparr>)\<rparr>)"
proof -
  let ?s1 = "s\<lparr>s_pages := (s_pages s)(pg := (s_pages s pg)
               \<lparr>pg_sources := ListMoveToFront n (pg_sources (s_pages s pg))\<rparr>)\<rparr>"
  from ok have fr: "ids_fresh s" and po: "pages_ok s" and sl: "sources_listed s"
    by (simp_all add: tracking_ok_def)
  have "ids_fresh ?s1" using fr by (simp add: ids_fresh_def)
  moreover have "sources_listed ?s1" using sl by (simp add: sources_listed_def)
  moreover have "pages_ok ?s1"
    unfolding pages_ok_def
  proof (intro allI conjI ballI)
    fix pn show "distinct (pg_sources (s_pages ?s1 pn))"
      using po by (simp add: pages_ok_def ListMoveToFront_distinct)
  next
    fix pn x assume "x \<in> set (pg_sources (s_pages ?s1 pn))"
    then have "x \<in> set (pg_sources (s_pages s pn))"
      using n by (cases "pn = pg") (simp_all add: ListMoveToFront_set)
    from pages_okD [OF po this]
    show "\<exists>src. live_sources ?s1 x = Some src \<and> pn \<in> set (src_page_refs src)" by simp
  qed
  ultimately show ?thesis by (simp add: tracking_ok_def)
qed

lemma CreateSource_ok:
  assumes cs: "CreateSource xxh s k tex = Inr (Some n, s1)" and ok: "tracking_ok s"
  shows "tracking_ok s1"
proof -
  from CreateSource_effect [OF cs] obtain ns where
    n0: "n = next_object s" and nx: "next_object s1 = Suc n"
    and lv: "live_sources s1 = (live_sources s)(n \<mapsto> ns)"
    and pgs: "\<forall>pn. pg_sources (s_pages s1 pn) = pg_sources (s_pages s pn) \<or>
                  (pn \<in> set (src_page_refs ns) \<and>
                   (pg_sources (s_pages s1 pn) = n # pg_sources (s_pages s pn) \<or>
                    pg_sources (s_pages s1 pn) = pg_sources (s_pages s pn) @ [n]))"
    and ent: "\<exists>e. map_of (s_hash_cache s1) (from_hash_cache ns) = Some e \<and> n \<in> set (sources e)"
    and old: "\<forall>k' e. map_of (s_hash_cache s) k' = Some e \<longrightarrow>
               (\<exists>e'. map_of (s_hash_cache s1) k' = Some e' \<and> set (sources e) \<subseteq> set (sources e'))"
    by blast
  from ok have fr: "ids_fresh s" and po: "pages_ok s" and sl: "sources_listed s"
    by (simp_all add: tracking_ok_def)
  have dead: "live_sources s n = None"
    using fr n0 by (auto simp: ids_fresh_def)
  have fresh: "\<And>pn. n \<notin> set (pg_sources (s_pages s pn))"
  proof
    fix pn assume "n \<in> set (pg_sources (s_pages s pn))"
    from pages_okD [OF po this] dead show False by simp
  qed
  have "ids_fresh s1"
    using fr n0 by (auto simp: ids_fresh_def lv nx less_Suc_eq)
  moreover have "pages_ok s1"
    unfolding pages_ok_def
  proof (intro allI conjI ballI)
    fix pn
    from pgs have c: "pg_sources (s_pages s1 pn) = pg_sources (s_pages s pn) \<or>
                  (pn \<in> set (src_page_refs ns) \<and>
                   (pg_sources (s_pages s1 pn) = n # pg_sources (s_pages s pn) \<or>
                    pg_sources (s_pages s1 pn) = pg_sources (s_pages s pn) @ [n]))" by blast
    have "distinct (pg_sources (s_pages s pn))" using po by (simp add: pages_ok_def)
    with c fresh [of pn] show "distinct (pg_sources (s_pages s1 pn))" by auto
  next
    fix pn x assume x: "x \<in> set (pg_sources (s_pages s1 pn))"
    from pgs have c: "pg_sources (s_pages s1 pn) = pg_sources (s_pages s pn) \<or>
                  (pn \<in> set (src_page_refs ns) \<and>
                   (pg_sources (s_pages s1 pn) = n # pg_sources (s_pages s pn) \<or>
                    pg_sources (s_pages s1 pn) = pg_sources (s_pages s pn) @ [n]))" by blast
    show "\<exists>src. live_sources s1 x = Some src \<and> pn \<in> set (src_page_refs src)"
    proof (cases "x = n")
      case True
      with x fresh [of pn] c have "pn \<in> set (src_page_refs ns)" by auto
      with True show ?thesis by (simp add: lv)
    next
      case False
      with x c have "x \<in> set (pg_sources (s_pages s pn))" by auto
      from pages_okD [OF po this] False show ?thesis by (simp add: lv)
    qed
  qed
  moreover have "sources_listed s1"
    unfolding sources_listed_def
  proof (intro allI impI)
    fix m sm assume m: "live_sources s1 m = Some sm"
    show "\<exists>e. map_of (s_hash_cache s1) (from_hash_cache sm) = Some e \<and> m \<in> set (sources e)"
    proof (cases "m = n")
      case True
      with m have "sm = ns" by (simp add: lv)
      with ent True show ?thesis by simp
    next
      case False
      with m have "live_sources s m = Some sm" by (simp add: lv)
      with sl obtain e where e: "map_of (s_hash_cache s) (from_hash_cache sm) = Some e"
        and me: "m \<in> set (sources e)" by (auto simp: sources_listed_def)
      from old e obtain e' where "map_of (s_hash_cache s1) (from_hash_cache sm) = Some e'"
        and "set (sources e) \<subseteq> set (sources e')" by blast
      with me show ?thesis by auto
    qed
  qed
  ultimately show ?thesis by (simp add: tracking_ok_def)
qed

lemma LookupSource_ok:
  assumes l: "LookupSource xxh s k r f tex fr = Inr (n, s')" and ok: "tracking_ok s"
  shows "tracking_ok s'"
proof -
  from LookupSource_cases [OF l] show ?thesis
  proof
    assume a: "find_source (live_sources s) k (pg_sources (s_pages s (page k))) = Inr (Some n) \<and>
          ReturnSource (s\<lparr>s_pages := (s_pages s)(page k := (s_pages s (page k))
               \<lparr>pg_sources := ListMoveToFront n (pg_sources (s_pages s (page k)))\<rparr>)\<rparr>) (Some n) r f fr
            = Inr (n, s')"
    then have "n \<in> set (pg_sources (s_pages s (page k)))"
      using find_source_Some by blast
    from ReturnSource_keeps_ok(1) [OF a [THEN conjunct2] move_to_front_ok [OF ok this]]
    show ?thesis .
  next
    assume "find_source (live_sources s) k (pg_sources (s_pages s (page k))) = Inr None \<and>
          (\<exists>s1. CreateSource xxh s k tex = Inr (Some n, s1) \<and> ReturnSource s1 (Some n) r f fr = Inr (n, s'))"
    then obtain s1 where c: "CreateSource xxh s k tex = Inr (Some n, s1)"
      and rs: "ReturnSource s1 (Some n) r f fr = Inr (n, s')" by blast
    from ReturnSource_keeps_ok(1) [OF rs CreateSource_ok [OF c ok]] show ?thesis .
  qed
qed

lemma LookupSource_keeps:
  assumes l: "LookupSource xxh s k' r f tex fr = Inr (n', s')" and h: "is_source_for s k n"
  shows "is_source_for s' k n \<and> (k' = k \<longrightarrow> n' = n \<and> length (s_hash_cache s') = length (s_hash_cache s))"
proof -
  from h have ok: "tracking_ok s"
    and fs: "find_source (live_sources s) k (pg_sources (s_pages s (page k))) = Inr (Some n)"
    by (simp_all add: is_source_for_def)
  note ok' = LookupSource_ok [OF l ok]
  from find_source_Some [OF fs] obtain src where nin: "n \<in> set (pg_sources (s_pages s (page k)))"
    and ln: "live_sources s n = Some src" and kn: "key src = k" by blast
  from LookupSource_cases [OF l] show ?thesis
  proof
    assume a: "find_source (live_sources s) k' (pg_sources (s_pages s (page k'))) = Inr (Some n') \<and>
          ReturnSource (s\<lparr>s_pages := (s_pages s)(page k' := (s_pages s (page k'))
               \<lparr>pg_sources := ListMoveToFront n' (pg_sources (s_pages s (page k')))\<rparr>)\<rparr>) (Some n') r f fr
            = Inr (n', s')"
    let ?s1 = "s\<lparr>s_pages := (s_pages s)(page k' := (s_pages s (page k'))
               \<lparr>pg_sources := ListMoveToFront n' (pg_sources (s_pages s (page k')))\<rparr>)\<rparr>"
    from a have f': "find_source (live_sources s) k' (pg_sources (s_pages s (page k'))) = Inr (Some n')"
      and rs: "ReturnSource ?s1 (Some n') r f fr = Inr (n', s')" by simp_all
    from find_source_Some [OF f'] obtain src' where n'in: "n' \<in> set (pg_sources (s_pages s (page k')))"
      and ln': "live_sources s n' = Some src'" and kn': "key src' = k'" by blast
    note ok1 = move_to_front_ok [OF ok n'in]
    note rk = ReturnSource_keeps_ok [OF rs ok1]
    from ReturnSource_effect [OF rs] have pg': "s_pages s' = s_pages ?s1" by simp
    have f1: "find_source (live_sources s) k (pg_sources (s_pages ?s1 (page k))) = Inr (Some n)"
    proof (cases "page k' = page k")
      case False
      with fs show ?thesis by simp
    next
      case True
      show ?thesis
      proof (cases "k' = k")
        case same: True
        with f' fs have "n' = n" by simp
        with ListMoveToFront_hd [OF nin] obtain rest where
          "ListMoveToFront n' (pg_sources (s_pages s (page k))) = n # rest" by auto
        with True ln kn show ?thesis by simp
      next
        case diff: False
        with kn' have nk: "key src' \<noteq> k" by simp
        have "find_source (live_sources s) k (ListMoveToFront n' (pg_sources (s_pages s (page k))))
                = Inr (Some n)"
        proof (cases "pg_sources (s_pages s (page k))")
          case Nil
          with fs show ?thesis by simp
        next
          case (Cons x xs)
          show ?thesis
          proof (cases "x = n'")
            case True
            with Cons fs show ?thesis by (simp add: ListMoveToFront_def)
          next
            case False
            from find_source_remove1 [OF fs ln' nk]
            have "find_source (live_sources s) k (n' # remove1 n' (pg_sources (s_pages s (page k))))
                    = Inr (Some n)"
              using ln' nk by simp
            with Cons False show ?thesis by (simp add: ListMoveToFront_def)
          qed
        qed
        with True show ?thesis by simp
      qed
    qed
    have "find_source (live_sources s') k (pg_sources (s_pages s' (page k))) = Inr (Some n)"
      using f1 by (simp add: rk(2) pg')
    with ok' have "is_source_for s' k n" by (simp add: is_source_for_def)
    moreover have "k' = k \<longrightarrow> n' = n \<and> length (s_hash_cache s') = length (s_hash_cache s)"
      using f' fs rk(3) by auto
    ultimately show ?thesis by simp
  next
    assume "find_source (live_sources s) k' (pg_sources (s_pages s (page k'))) = Inr None \<and>
          (\<exists>s1. CreateSource xxh s k' tex = Inr (Some n', s1) \<and> ReturnSource s1 (Some n') r f fr = Inr (n', s'))"
    then obtain s1 where f': "find_source (live_sources s) k' (pg_sources (s_pages s (page k'))) = Inr None"
      and c: "CreateSource xxh s k' tex = Inr (Some n', s1)"
      and rs: "ReturnSource s1 (Some n') r f fr = Inr (n', s')" by blast
    from f' fs have diff: "k' \<noteq> k" by auto
    from CreateSource_effect [OF c] obtain ns where
      n0: "n' = next_object s"
      and lv: "live_sources s1 = (live_sources s)(n' \<mapsto> ns)" and kns: "key ns = k'"
      and pgs: "\<forall>pn. pg_sources (s_pages s1 pn) = pg_sources (s_pages s pn) \<or>
                  (pn \<in> set (src_page_refs ns) \<and>
                   (pg_sources (s_pages s1 pn) = n' # pg_sources (s_pages s pn) \<or>
                    pg_sources (s_pages s1 pn) = pg_sources (s_pages s pn) @ [n']))"
      by blast
    from ok have fr: "ids_fresh s" and po: "pages_ok s" by (simp_all add: tracking_ok_def)
    have dead: "live_sources s n' = None"
      using fr n0 by (auto simp: ids_fresh_def)
    have "\<forall>m \<in> set (pg_sources (s_pages s (page k))).
            map_option key (live_sources s1 m) = map_option key (live_sources s m)"
    proof
      fix m assume "m \<in> set (pg_sources (s_pages s (page k)))"
      from pages_okD [OF po this] dead have "m \<noteq> n'" by auto
      then show "map_option key (live_sources s1 m) = map_option key (live_sources s m)"
        by (simp add: lv)
    qed
    from find_source_cong [OF this] fs
    have f0: "find_source (live_sources s1) k (pg_sources (s_pages s (page k))) = Inr (Some n)"
      by simp
    from pgs have "pg_sources (s_pages s1 (page k)) = pg_sources (s_pages s (page k)) \<or>
                   pg_sources (s_pages s1 (page k)) = n' # pg_sources (s_pages s (page k)) \<or>
                   pg_sources (s_pages s1 (page k)) = pg_sources (s_pages s (page k)) @ [n']"
      by blast
    then have f1: "find_source (live_sources s1) k (pg_sources (s_pages s1 (page k))) = Inr (Some n)"
    proof (elim disjE)
      assume "pg_sources (s_pages s1 (page k)) = pg_sources (s_pages s (page k))"
      with f0 show ?thesis by simp
    next
      assume e: "pg_sources (s_pages s1 (page k)) = n' # pg_sources (s_pages s (page k))"
      have "live_sources s1 n' = Some ns" by (simp add: lv)
      with f0 kns diff show ?thesis by (simp add: e)
    next
      assume e: "pg_sources (s_pages s1 (page k)) = pg_sources (s_pages s (page k)) @ [n']"
      from find_source_append [OF f0] show ?thesis by (simp add: e)
    qed
    note rk = ReturnSource_keeps_ok [OF rs CreateSource_ok [OF c ok]]
    from ReturnSource_effect [OF rs] have pg': "s_pages s' = s_pages s1" by simp
    have "find_source (live_sources s') k (pg_sources (s_pages s' (page k))) = Inr (Some n)"
      using f1 by (simp add: rk(2) pg')
    with ok' diff show ?thesis by (simp add: is_source_for_def)
  qed
qed

lemma LookupSource_establishes:
  assumes l: "LookupSource xxh s k r f tex fr = Inr (n, s')" and ok: "tracking_ok s"
    and pk: "page k < 32"
  shows "is_source_for s' k n"
proof -
  note ok' = LookupSource_ok [OF l ok]
  from LookupSource_cases [OF l] show ?thesis
  proof
    assume "find_source (live_sources s) k (pg_sources (s_pages s (page k))) = Inr (Some n) \<and>
          ReturnSource (s\<lparr>s_pages := (s_pages s)(page k := (s_pages s (page k))
               \<lparr>pg_sources := ListMoveToFront n (pg_sources (s_pages s (page k)))\<rparr>)\<rparr>) (Some n) r f fr
            = Inr (n, s')"
    with ok have "is_source_for s k n" by (simp add: is_source_for_def)
    from LookupSource_keeps [OF l this] show ?thesis by simp
  next
    assume "find_source (live_sources s) k (pg_sources (s_pages s (page k))) = Inr None \<and>
          (\<exists>s1. CreateSource xxh s k tex = Inr (Some n, s1) \<and> ReturnSource s1 (Some n) r f fr = Inr (n, s'))"
    then obtain s1 where c: "CreateSource xxh s k tex = Inr (Some n, s1)"
      and rs: "ReturnSource s1 (Some n) r f fr = Inr (n, s')" by blast
    from CreateSource_Some [OF c pk] obtain src where
      hd: "pg_sources (s_pages s1 (page k)) = n # pg_sources (s_pages s (page k))"
      and ln: "live_sources s1 n = Some src" and kn: "key src = k" by blast
    then have f1: "find_source (live_sources s1) k (pg_sources (s_pages s1 (page k))) = Inr (Some n)"
      by simp
    note rk = ReturnSource_keeps_ok [OF rs CreateSource_ok [OF c ok]]
    from ReturnSource_effect [OF rs] have pg': "s_pages s' = s_pages s1" by simp
    have "find_source (live_sources s') k (pg_sources (s_pages s' (page k))) = Inr (Some n)"
      using f1 by (simp add: rk(2) pg')
    with ok' show ?thesis by (simp add: is_source_for_def)
  qed
qed

lemma LookupSource_returns:
  assumes h: "is_source_for s k n"
  shows "(\<exists>src. live_sources s n = Some src \<and> key src = k) \<and>
         (\<exists>s'. LookupSource xxh s k r f tex fr = Inr (n, s'))"
proof -
  from h have ok: "tracking_ok s"
    and fs: "find_source (live_sources s) k (pg_sources (s_pages s (page k))) = Inr (Some n)"
    by (simp_all add: is_source_for_def)
  from find_source_Some [OF fs] obtain src where
    ln: "live_sources s n = Some src" and kn: "key src = k" by blast
  from ok ln obtain e where e: "map_of (s_hash_cache s) (from_hash_cache src) = Some e"
    by (auto simp: tracking_ok_def sources_listed_def)
  let ?s1 = "s\<lparr>s_pages := (s_pages s)(page k := (s_pages s (page k))
               \<lparr>pg_sources := ListMoveToFront n (pg_sources (s_pages s (page k)))\<rparr>)\<rparr>"
  have l1: "live_sources ?s1 n = Some src"
    and m1: "map_of (s_hash_cache ?s1) (from_hash_cache src) = Some e"
    using ln e by simp_all
  from ReturnSource_ok [OF l1 m1, of r f fr] obtain s' where
    "ReturnSource ?s1 (Some n) r f fr = Inr (n, s')" by blast
  with fs have "LookupSource xxh s k r f tex fr = Inr (n, s')"
    by (simp add: LookupSource_def Let_def)
  with ln kn show ?thesis by blast
qed

subsection \<open>Eviction from the hash cache\<close>

lemma DestroySource_keeps_None:
  "DestroySource xxh n s = Inr s' \<Longrightarrow> map_of (s_hash_cache s) k = None \<Longrightarrow>
   map_of (s_hash_cache s') k = None"
  by (auto dest!: DestroySource_effect simp: map_of_update_entry)

lemma destroy_sources_keeps_None:
  "destroy_sources xxh ns s = Inr s' \<Longrightarrow> map_of (s_hash_cache s) k = None \<Longrightarrow>
   map_of (s_hash_cache s') k = None"
proof (induction ns arbitrary: s)
  case Nil
  then show ?case by simp
next
  case (Cons n ns)
  from Cons.prems(1) obtain s1 where d: "DestroySource xxh n s = Inr s1"
    and r: "destroy_sources xxh ns s1 = Inr s'"
    by (auto split: sum.splits)
  from Cons.IH [OF r DestroySource_keeps_None [OF d Cons.prems(2)]] show ?case .
qed

lemma RemoveFromHashCache_keeps_None:
  assumes "RemoveFromHashCache xxh it s = Inr s'"
  shows "map_of (s_hash_cache s') it = None"
    and "map_of (s_hash_cache s) k = None \<Longrightarrow> map_of (s_hash_cache s') k = None"
  using assms
  by (auto simp: RemoveFromHashCache_def map_of_filter_key split: option.splits sum.splits
      dest: destroy_sources_keeps_None)

lemma purge_loop_keeps_None:
  "purge_loop xxh l s = Inr s' \<Longrightarrow> map_of (s_hash_cache s) k = None \<Longrightarrow>
   map_of (s_hash_cache s') k = None"
proof (induction l arbitrary: s)
  case Nil
  then show ?case by simp
next
  case (Cons p l)
  show ?case
  proof (cases "over_budget s")
    case True
    with Cons.prems(1) obtain s1 where r: "RemoveFromHashCache xxh (fst p) s = Inr s1"
      and l: "purge_loop xxh l s1 = Inr s'"
      by (auto split: sum.splits)
    from Cons.IH [OF l RemoveFromHashCache_keeps_None(2) [OF r Cons.prems(2)]] show ?thesis .
  next
    case False
    with Cons.prems show ?thesis by simp
  qed
qed

lemma purge_loop_evicts_head:
  assumes "over_budget s" and "purge_loop xxh (p # rest) s = Inr s'"
  shows "map_of (s_hash_cache s') (fst p) = None"
proof -
  from assms obtain s1 where r: "RemoveFromHashCache xxh (fst p) s = Inr s1"
    and l: "purge_loop xxh rest s1 = Inr s'"
    by (auto split: sum.splits)
  from purge_loop_keeps_None [OF l RemoveFromHashCache_keeps_None(1) [OF r]] show ?thesis .
qed

lemma c1_others_keys: "c1_referenced_key \<notin> fst ` set c1_others"
  by (auto simp: c1_others_def c1_referenced_key_def)

lemma length_c1_others: "length c1_others = 500"
  by (simp add: c1_others_def)

lemma map_of_c1_others: "k \<in> fst ` set c1_others \<Longrightarrow> map_of c1_others k = Some c1_unreferenced"
proof -
  assume "k \<in> fst ` set c1_others"
  then have "k \<in> (\<lambda>i. HashCacheKey (of_nat i) 0 0) ` set [1..<501]"
    by (auto simp: c1_others_def image_iff)
  then show ?thesis
    unfolding c1_others_def by (rule map_of_const_keys)
qed

lemma c1_state_links: "cache_links_ok c1_state"
proof -
  have "\<And>k e. map_of c1_others k = Some e \<Longrightarrow> sources e = []"
  proof -
    fix k e assume m: "map_of c1_others k = Some e"
    then have "k \<in> fst ` set c1_others" by (metis domI dom_map_of_conv_image_fst)
    from map_of_c1_others [OF this] m show "sources e = []" by (simp add: c1_unreferenced_def)
  qed
  then show ?thesis
    by (auto simp: cache_links_ok_def c1_state_def initial_state_def c1_source_def split: if_splits)
qed

lemma c1_state_over: "over_budget c1_state"
  by (simp add: over_budget_def c1_state_def initial_state_def length_c1_others MAX_HASH_CACHE_SIZE_def)

lemma c1_destroy: "DestroySource xxh 0 c1_state =
   Inr (c1_state\<lparr>s_pages := (\<lambda>pn. empty_page), live_sources := Map.empty,
        s_hash_cache := (c1_referenced_key, c1_referenced\<lparr>sources := [], ref_count := 0\<rparr>) # c1_others\<rparr>)"
proof -
  have p: "c1_pages(0 := empty_page, Suc 0 := empty_page, 2 := empty_page, 3 := empty_page) = (\<lambda>pn. empty_page)"
    by (rule ext) (simp add: c1_pages_def)
  have w: "writes (c1_pages 0) = []" by (simp add: c1_pages_def empty_page_def)
  have l: "LoopRectPages (GSVector4i 0 0 64 64) = [0]"
    by (simp add: geo_defs)
  have q: "\<And>i. i < 4 \<Longrightarrow> (c1_pages i)\<lparr>pg_sources := remove1 0 (pg_sources (c1_pages i))\<rparr> = empty_page"
    by (simp add: c1_pages_def empty_page_def)
  show ?thesis
    by (simp add: DestroySource_def c1_state_def initial_state_def c1_source_def INVALID_RECT_def
        l w unlink_source_def update_entry_Cons update_entry_absent c1_others_keys q p c1_referenced_def)
qed

lemma c1_remove: "RemoveFromHashCache xxh c1_referenced_key c1_state = Inr c1_after"
proof -
  have m: "map_of (s_hash_cache c1_state) c1_referenced_key = Some c1_referenced"
    by (simp add: c1_state_def initial_state_def)
  have s: "sources c1_referenced = [0]"
    by (simp add: c1_referenced_def)
  show ?thesis
    apply (simp add: RemoveFromHashCache_def m s c1_destroy)
    apply (simp add: c1_state_def initial_state_def c1_referenced_def example_texture_def c1_after_def
        filter_key_absent c1_others_keys)
    done
qed

lemma c1_after_within: "\<not> over_budget c1_after"
  by (simp add: over_budget_def c1_after_def initial_state_def length_c1_others MAX_HASH_CACHE_SIZE_def)

lemma c1_purge_list:
  "map (\<lambda>k. (k, sint (last_used_frame (the (map_of (s_hash_cache c1_state) k))))) (map fst (s_hash_cache c1_state))
   = (c1_referenced_key, 1) # map (\<lambda>k. (k, 5)) (map fst c1_others)"
proof -
  have "\<And>k. k \<in> fst ` set c1_others \<Longrightarrow>
          sint (last_used_frame (the (map_of (s_hash_cache c1_state) k))) = 5"
  proof -
    fix k assume k: "k \<in> fst ` set c1_others"
    with c1_others_keys have "k \<noteq> c1_referenced_key" by blast
    with map_of_c1_others [OF k] show "sint (last_used_frame (the (map_of (s_hash_cache c1_state) k))) = 5"
      by (simp add: c1_state_def initial_state_def c1_unreferenced_def)
  qed
  then show ?thesis
    by (simp add: c1_state_def initial_state_def c1_referenced_def)
qed


text \<open>
  C1. Eviction should never remove an entry whose reference count is above zero. In every
  state with sound back pointers the pass by age keeps such an entry: it is in the cache,
  unchanged, when the first loop of \<^verbatim>\<open>Compact\<close> is over. \<^verbatim>\<open>Compact\<close> as a whole keeps it
  when the cache is within both limits at the start, and also when the pass by age leaves
  the cache within both limits or has cleared the flag for the purge; \<^verbatim>\<open>Compact\<close> then
  returns the state that the pass by age left. When the flag is set and the cache is still
  over a limit, the entry at the head of the sorted purge list is evicted, whatever its
  reference count.
\<close>

theorem C1_referenced_entry_survives:
  assumes ok: "cache_links_ok s" and e: "map_of (s_hash_cache s) k = Some e" and rc: "ref_count e \<noteq> 0"
  shows "(compact_loop xxh m (map fst (s_hash_cache s)) (b, [], s) = Inr (b1, pl1, s1)
            \<longrightarrow> map_of (s_hash_cache s1) k = Some e)
       \<and> (\<not> over_budget s \<and> Compact xxh frame_number s = Inr s'
            \<longrightarrow> map_of (s_hash_cache s') k = Some e)
       \<and> (compact_loop xxh (if frame_number > MAX_HASH_CACHE_AGE then frame_number - MAX_HASH_CACHE_AGE else 0)
              (map fst (s_hash_cache s)) (over_budget s, [], s) = Inr (b2, pl2, s2)
            \<and> (\<not> b2 \<or> \<not> over_budget s2)
            \<longrightarrow> Compact xxh frame_number s = Inr s2 \<and> map_of (s_hash_cache s2) k = Some e)
       \<and> (compact_loop xxh (if frame_number > MAX_HASH_CACHE_AGE then frame_number - MAX_HASH_CACHE_AGE else 0)
              (map fst (s_hash_cache s)) (over_budget s, [], s) = Inr (True, pl3, s3)
            \<and> over_budget s3 \<and> sort_key snd pl3 = p # rest \<and> Compact xxh frame_number s = Inr s4
            \<longrightarrow> map_of (s_hash_cache s4) (fst p) = None)"
proof (intro conjI impI)
  assume "compact_loop xxh m (map fst (s_hash_cache s)) (b, [], s) = Inr (b1, pl1, s1)"
  from compact_loop_inv [OF this ok e rc] show "map_of (s_hash_cache s1) k = Some e" by simp
next
  assume a: "\<not> over_budget s \<and> Compact xxh frame_number s = Inr s'"
  let ?m = "if frame_number > MAX_HASH_CACHE_AGE then frame_number - MAX_HASH_CACHE_AGE else 0"
  from a obtain b' pl s1 where
    l: "compact_loop xxh ?m (map fst (s_hash_cache s)) (False, [], s) = Inr (b', pl, s1)"
    by (cases "compact_loop xxh ?m (map fst (s_hash_cache s)) (False, [], s)")
       (auto simp: Compact_def Let_def)
  from compact_loop_inv [OF l ok e rc] have nb: "\<not> b'" and m: "map_of (s_hash_cache s1) k = Some e"
    by simp_all
  from a have nob: "\<not> over_budget s" and c: "Compact xxh frame_number s = Inr s'" by simp_all
  from c l nb nob have "s' = s1" by (simp add: Compact_def Let_def)
  with m show "map_of (s_hash_cache s') k = Some e" by simp
next
  let ?m = "if frame_number > MAX_HASH_CACHE_AGE then frame_number - MAX_HASH_CACHE_AGE else 0"
  assume a: "compact_loop xxh ?m (map fst (s_hash_cache s)) (over_budget s, [], s) = Inr (b2, pl2, s2)
             \<and> (\<not> b2 \<or> \<not> over_budget s2)"
  then have l: "compact_loop xxh ?m (map fst (s_hash_cache s)) (over_budget s, [], s) = Inr (b2, pl2, s2)"
    and q: "\<not> b2 \<or> \<not> over_budget s2" by simp_all
  from q show "Compact xxh frame_number s = Inr s2"
    by (auto simp: Compact_def Let_def l purge_loop_within)
next
  let ?m = "if frame_number > MAX_HASH_CACHE_AGE then frame_number - MAX_HASH_CACHE_AGE else 0"
  assume a: "compact_loop xxh ?m (map fst (s_hash_cache s)) (over_budget s, [], s) = Inr (b2, pl2, s2)
             \<and> (\<not> b2 \<or> \<not> over_budget s2)"
  then have l: "compact_loop xxh ?m (map fst (s_hash_cache s)) (over_budget s, [], s) = Inr (b2, pl2, s2)"
    by simp
  from compact_loop_inv [OF l ok e rc] show "map_of (s_hash_cache s2) k = Some e" by simp
next
  let ?m = "if frame_number > MAX_HASH_CACHE_AGE then frame_number - MAX_HASH_CACHE_AGE else 0"
  assume a: "compact_loop xxh ?m (map fst (s_hash_cache s)) (over_budget s, [], s) = Inr (True, pl3, s3)
             \<and> over_budget s3 \<and> sort_key snd pl3 = p # rest \<and> Compact xxh frame_number s = Inr s4"
  then have l: "compact_loop xxh ?m (map fst (s_hash_cache s)) (over_budget s, [], s) = Inr (True, pl3, s3)"
    and o: "over_budget s3" and srt: "sort_key snd pl3 = p # rest"
    and c: "Compact xxh frame_number s = Inr s4" by simp_all
  from c have "purge_loop xxh (p # rest) s3 = Inr s4"
    by (simp add: Compact_def Let_def l srt)
  from purge_loop_evicts_head [OF o this] show "map_of (s_hash_cache s4) (fst p) = None" .
qed


lemma c1_age_pass:
  "compact_loop count_hash 0 (map fst (s_hash_cache c1_state)) (True, [], c1_state) =
     Inr (True, (c1_referenced_key, 1) # map (\<lambda>k. (k, 5)) (map fst c1_others), c1_state)"
proof -
  have keys: "\<forall>k \<in> set (map fst (s_hash_cache c1_state)). map_of (s_hash_cache c1_state) k \<noteq> None"
    by (metis domIff dom_map_of_conv_image_fst set_map)
  have "compact_loop count_hash 0 (map fst (s_hash_cache c1_state)) (True, [], c1_state) =
          Inr (True, [] @ map (\<lambda>k. (k, sint (last_used_frame (the (map_of (s_hash_cache c1_state) k)))))
                            (map fst (s_hash_cache c1_state)), c1_state)"
    by (rule compact_loop_young [OF c1_state_over keys])
  then show ?thesis
    unfolding append_Nil c1_purge_list .
qed

lemma c1_sorted:
  "sort_key snd ((c1_referenced_key, 1 :: int) # map (\<lambda>k. (k, 5)) (map fst c1_others))
     = (c1_referenced_key, 1) # map (\<lambda>k. (k, 5)) (map fst c1_others)"
  by (rule sort_key_id_if_sorted) (simp add: comp_def map_replicate_const)

lemma c1_min_frame:
  "(if (6 :: 32 word) > MAX_HASH_CACHE_AGE then 6 - MAX_HASH_CACHE_AGE else 0) = 0"
  by (simp add: MAX_HASH_CACHE_AGE_def)

lemma c1_Compact: "Compact count_hash 6 c1_state = Inr c1_after"
proof -
  have pl: "purge_loop count_hash ((c1_referenced_key, 1) # map (\<lambda>k. (k, 5)) (map fst c1_others)) c1_state
            = Inr c1_after"
    by (simp only: purge_loop.simps c1_state_over if_True fst_conv c1_remove sum.case
        purge_loop_within [OF c1_after_within])
  show ?thesis
    by (simp only: Compact_def Let_def c1_min_frame c1_state_over c1_age_pass sum.case prod.case
        if_True c1_sorted pl)
qed

lemma c1_state_entry: "map_of (s_hash_cache c1_state) c1_referenced_key = Some c1_referenced"
  by (simp add: c1_state_def initial_state_def)

lemma c1_within_links: "cache_links_ok c1_within"
  by (simp add: cache_links_ok_def c1_within_def initial_state_def c1_source_def)

lemma c1_within_Compact: "Compact count_hash 1000 c1_within = Inr c1_within"
  by (simp add: Compact_def MAX_HASH_CACHE_AGE_def over_budget_def MAX_HASH_CACHE_SIZE_def
      c1_within_def initial_state_def c1_referenced_def)

lemma c1_within_age_pass:
  "compact_loop count_hash (if (1000 :: 32 word) > MAX_HASH_CACHE_AGE then 1000 - MAX_HASH_CACHE_AGE else 0)
     (map fst (s_hash_cache c1_within)) (over_budget c1_within, [], c1_within) = Inr (False, [], c1_within)"
  by (simp add: MAX_HASH_CACHE_AGE_def over_budget_def MAX_HASH_CACHE_SIZE_def
      c1_within_def initial_state_def c1_referenced_def)

text \<open>
  In frame 1000 an entry with one reference that was last used in frame 1 is older than
  the 600 frames allowed; the cache is within its limits, and \<^verbatim>\<open>Compact\<close> keeps the
  entry. In \<open>c1_state\<close> the cache is over the limit when the pass by age is over, and the
  entry at the head of the sorted purge list is gone afterwards.
\<close>

theorem C1_referenced_entry_survives_witness:
  "cache_links_ok c1_within
   \<and> map_of (s_hash_cache c1_within) c1_referenced_key = Some c1_referenced
   \<and> ref_count c1_referenced \<noteq> 0
   \<and> last_used_frame c1_referenced < 1000 - MAX_HASH_CACHE_AGE
   \<and> \<not> over_budget c1_within
   \<and> compact_loop count_hash (if (1000 :: 32 word) > MAX_HASH_CACHE_AGE then 1000 - MAX_HASH_CACHE_AGE else 0)
         (map fst (s_hash_cache c1_within)) (over_budget c1_within, [], c1_within) = Inr (False, [], c1_within)
   \<and> (\<exists>s'. Compact count_hash 1000 c1_within = Inr s'
           \<and> map_of (s_hash_cache s') c1_referenced_key = Some c1_referenced)
   \<and> cache_links_ok c1_state \<and> over_budget c1_state
   \<and> (\<exists>p rest s'. sort_key snd ((c1_referenced_key, 1 :: int) # map (\<lambda>k. (k, 5)) (map fst c1_others)) = p # rest
           \<and> Compact count_hash 6 c1_state = Inr s'
           \<and> map_of (s_hash_cache s') (fst p) = None)"
proof -
  have m: "map_of (s_hash_cache c1_within) c1_referenced_key = Some c1_referenced"
    by (simp add: c1_within_def initial_state_def)
  have r: "ref_count c1_referenced \<noteq> 0" by (simp add: c1_referenced_def)
  have o: "\<not> over_budget c1_within"
    by (simp add: over_budget_def MAX_HASH_CACHE_SIZE_def c1_within_def initial_state_def)
  have l: "last_used_frame c1_referenced < 1000 - MAX_HASH_CACHE_AGE"
    by (simp add: c1_referenced_def MAX_HASH_CACHE_AGE_def)
  note t1 = C1_referenced_entry_survives [OF c1_within_links m r,
      where xxh = count_hash and frame_number = 1000 and s' = c1_within
        and ?b2.0 = False and ?pl2.0 = "[]" and ?s2.0 = c1_within]
  have "\<not> over_budget c1_within \<and> Compact count_hash 1000 c1_within = Inr c1_within"
    using o c1_within_Compact by simp
  with t1 have kept: "\<exists>s'. Compact count_hash 1000 c1_within = Inr s'
           \<and> map_of (s_hash_cache s') c1_referenced_key = Some c1_referenced"
    by blast
  note t2 = C1_referenced_entry_survives [OF c1_state_links c1_state_entry r,
      where xxh = count_hash and frame_number = 6 and ?s4.0 = c1_after and ?s3.0 = c1_state
        and ?pl3.0 = "(c1_referenced_key, 1) # map (\<lambda>k. (k, 5)) (map fst c1_others)"
        and p = "(c1_referenced_key, 1)" and rest = "map (\<lambda>k. (k, 5)) (map fst c1_others)"]
  have age: "compact_loop count_hash (if (6 :: 32 word) > MAX_HASH_CACHE_AGE then 6 - MAX_HASH_CACHE_AGE else 0)
      (map fst (s_hash_cache c1_state)) (over_budget c1_state, [], c1_state) =
     Inr (True, (c1_referenced_key, 1) # map (\<lambda>k. (k, 5)) (map fst c1_others), c1_state)"
    by (simp only: c1_min_frame c1_state_over c1_age_pass)
  from t2 age c1_state_over c1_sorted c1_Compact
  have "map_of (s_hash_cache c1_after) (fst (c1_referenced_key, 1 :: int)) = None" by blast
  with c1_sorted c1_Compact
  have gone: "\<exists>p rest s'. sort_key snd ((c1_referenced_key, 1 :: int) # map (\<lambda>k. (k, 5)) (map fst c1_others)) = p # rest
           \<and> Compact count_hash 6 c1_state = Inr s'
           \<and> map_of (s_hash_cache s') (fst p) = None" by blast
  from c1_within_links m r l o c1_within_age_pass kept c1_state_links c1_state_over gone
  show ?thesis by blast
qed

text \<open>
  The purge of a cache over its limits has no test of the reference count: the purge
  list receives every entry that the pass by age has left, and the entries go in the order
  of their last use. In \<open>c1_state\<close> the oldest entry is the one with a live source;
  \<^verbatim>\<open>Compact\<close> destroys the source and removes the entry.
\<close>

theorem C1_purge_evicts_referenced_entry:
  "map_option ref_count (map_of (s_hash_cache c1_state) c1_referenced_key) = Some 1
   \<and> live_sources c1_state 0 = Some c1_source
   \<and> from_hash_cache c1_source = c1_referenced_key
   \<and> Compact count_hash 6 c1_state = Inr c1_after
   \<and> map_of (s_hash_cache c1_after) c1_referenced_key = None
   \<and> live_sources c1_after 0 = None"
proof -
  have a: "map_option ref_count (map_of (s_hash_cache c1_state) c1_referenced_key) = Some 1"
    by (simp add: c1_state_def initial_state_def c1_referenced_def)
  have b: "live_sources c1_state 0 = Some c1_source"
    by (simp add: c1_state_def initial_state_def)
  have c: "from_hash_cache c1_source = c1_referenced_key"
    by (simp add: c1_source_def)
  have e: "map_of (s_hash_cache c1_after) c1_referenced_key = None"
    using c1_others_keys by (simp add: c1_after_def initial_state_def map_of_eq_None_iff)
  have f: "live_sources c1_after 0 = None"
    by (simp add: c1_after_def initial_state_def)
  from a b c c1_Compact e f show ?thesis by blast
qed

subsection \<open>A second lookup of the same key\<close>

lemma DestroySource_next:
  assumes d: "DestroySource xxh n s = Inr s'"
  shows "next_object s' = next_object s"
proof -
  from DestroySource_effect [OF d] obtain src where l: "live_sources s n = Some src" by blast
  from d l obtain s1 where
    s1: "(if dump_textures s \<and> active_uv_rect src \<noteq> INVALID_RECT \<and> \<not> dump_texture_pages s
          then destroy_update_pages xxh src (LoopRectPages (active_uv_rect src)) s
          else Inr s) = Inr s1"
    by (auto simp: DestroySource_def split: sum.splits)
  have k1: "next_object s1 = next_object s"
    using s1 by (auto split: if_splits dest!: destroy_update_pages_keeps_pages)
  from d l s1 have "next_object s' = next_object (fold (unlink_source n) (src_page_refs src) s1)"
    by (auto simp: DestroySource_def Let_def split: option.splits)
  with k1 show ?thesis by (simp add: fold_unlink_source_next)
qed

lemma destroy_sources_next:
  "destroy_sources xxh ns s = Inr s' \<Longrightarrow> next_object s' = next_object s"
proof (induction ns arbitrary: s)
  case Nil
  then show ?case by simp
next
  case (Cons n ns)
  from Cons.prems obtain s1 where d: "DestroySource xxh n s = Inr s1"
    and r: "destroy_sources xxh ns s1 = Inr s'"
    by (auto split: sum.splits)
  from Cons.IH [OF r] DestroySource_next [OF d] show ?case by simp
qed

lemma RemoveFromHashCache_next:
  assumes r: "RemoveFromHashCache xxh it s = Inr s'"
  shows "next_object s' = next_object s"
proof -
  from RemoveFromHashCache_parts [OF r] obtain e0 :: HashCacheEntry and s1 u where
    d: "destroy_sources xxh (sources e0) s = Inr s1"
    and s': "s' = s1\<lparr>s_hash_cache_memory_usage := u,
                   s_hash_cache := filter (\<lambda>(k, _). k \<noteq> it) (s_hash_cache s1)\<rparr>" by blast
  from destroy_sources_next [OF d] show ?thesis by (simp add: s')
qed

lemma compact_loop_next:
  "compact_loop xxh m ks (b, pl, s) = Inr (b', pl', s') \<Longrightarrow> next_object s' = next_object s"
proof (induction ks arbitrary: b pl s)
  case Nil
  then show ?case by simp
next
  case (Cons it ks)
  from Cons.prems(1) obtain ei where ei: "map_of (s_hash_cache s) it = Some ei"
    by (auto split: option.splits)
  show ?case
  proof (cases "ref_count ei = 0 \<and> last_used_frame ei < m")
    case True
    with Cons.prems(1) ei obtain s1 where r: "RemoveFromHashCache xxh it s = Inr s1"
      and l: "compact_loop xxh m ks (b, pl, s1) = Inr (b', pl', s')"
      by (auto split: sum.splits)
    from Cons.IH [OF l] RemoveFromHashCache_next [OF r] show ?thesis by simp
  next
    case False
    with Cons.prems(1) ei obtain b1 pl1 where
      l: "compact_loop xxh m ks (b1, pl1, s) = Inr (b', pl', s')"
      by (auto split: if_splits)
    from Cons.IH [OF l] show ?thesis .
  qed
qed

lemma purge_loop_next:
  "purge_loop xxh l s = Inr s' \<Longrightarrow> next_object s' = next_object s"
proof (induction l arbitrary: s)
  case Nil
  then show ?case by simp
next
  case (Cons p l)
  show ?case
  proof (cases "over_budget s")
    case True
    with Cons.prems(1) obtain s1 where r: "RemoveFromHashCache xxh (fst p) s = Inr s1"
      and l: "purge_loop xxh l s1 = Inr s'"
      by (auto split: sum.splits)
    from Cons.IH [OF l] RemoveFromHashCache_next [OF r] show ?thesis by simp
  next
    case False
    with Cons.prems show ?thesis by simp
  qed
qed

lemma Compact_shrinks:
  assumes c: "Compact xxh frame_number s = Inr s'" and ok: "tracking_ok s"
  shows "next_object s' = next_object s"
    and "\<And>n. live_sources s' n \<noteq> None \<Longrightarrow> live_sources s n \<noteq> None"
proof -
  from Compact_parts [OF c] obtain b pl s1 where
    l: "compact_loop xxh (if frame_number > MAX_HASH_CACHE_AGE then frame_number - MAX_HASH_CACHE_AGE else 0)
                 (map fst (s_hash_cache s)) (over_budget s, [], s) = Inr (b, pl, s1)"
    and p: "(if b then purge_loop xxh (sort_key snd pl) s1 else Inr s1) = Inr s'" by blast
  note ok1 = compact_loop_ok [OF l ok]
  note n1 = compact_loop_next [OF l]
  show "next_object s' = next_object s"
  proof (cases b)
    case True
    with p have "purge_loop xxh (sort_key snd pl) s1 = Inr s'" by simp
    from purge_loop_next [OF this] n1 show ?thesis by simp
  next
    case False
    with p n1 show ?thesis by simp
  qed
  show "\<And>n. live_sources s' n \<noteq> None \<Longrightarrow> live_sources s n \<noteq> None"
  proof -
    fix n assume a: "live_sources s' n \<noteq> None"
    show "live_sources s n \<noteq> None"
    proof (cases b)
      case True
      with p have "purge_loop xxh (sort_key snd pl) s1 = Inr s'" by simp
      from purge_loop_ok [OF this] ok1 a show ?thesis by auto
    next
      case False
      with p have "s' = s1" by simp
      with ok1 a show ?thesis by auto
    qed
  qed
qed

lemma LookupSource_grows:
  assumes l: "LookupSource xxh s k r f tex fr = Inr (n, s')"
  shows "next_object s \<le> next_object s'"
    and "\<And>x. live_sources s' x \<noteq> None \<Longrightarrow> x < next_object s \<Longrightarrow> live_sources s x \<noteq> None"
proof -
  let ?s1 = "s\<lparr>s_pages := (s_pages s)(page k := (s_pages s (page k))
               \<lparr>pg_sources := ListMoveToFront n (pg_sources (s_pages s (page k)))\<rparr>)\<rparr>"
  from LookupSource_cases [OF l]
  have "next_object s \<le> next_object s' \<and>
        (\<forall>x. live_sources s' x \<noteq> None \<longrightarrow> x < next_object s \<longrightarrow> live_sources s x \<noteq> None)"
  proof
    assume "find_source (live_sources s) k (pg_sources (s_pages s (page k))) = Inr (Some n) \<and>
          ReturnSource ?s1 (Some n) r f fr = Inr (n, s')"
    then have rs: "ReturnSource ?s1 (Some n) r f fr = Inr (n, s')" by simp
    from ReturnSource_effect [OF rs] obtain src src' where
      "next_object s' = next_object ?s1" "live_sources ?s1 n = Some src"
      "live_sources s' = (live_sources ?s1)(n \<mapsto> src')" by blast
    then show ?thesis by (auto split: if_splits)
  next
    assume "find_source (live_sources s) k (pg_sources (s_pages s (page k))) = Inr None \<and>
          (\<exists>s1. CreateSource xxh s k tex = Inr (Some n, s1) \<and> ReturnSource s1 (Some n) r f fr = Inr (n, s'))"
    then obtain s1 where c: "CreateSource xxh s k tex = Inr (Some n, s1)"
      and rs: "ReturnSource s1 (Some n) r f fr = Inr (n, s')" by blast
    from CreateSource_effect [OF c] obtain ns where
      n0: "n = next_object s" and nx: "next_object s1 = Suc n"
      and lv: "live_sources s1 = (live_sources s)(n \<mapsto> ns)" by blast
    from ReturnSource_effect [OF rs] obtain src src' where
      "next_object s' = next_object s1" "live_sources s1 n = Some src"
      "live_sources s' = (live_sources s1)(n \<mapsto> src')" by blast
    with n0 nx lv show ?thesis by (auto split: if_splits)
  qed
  then show "next_object s \<le> next_object s'"
    and "\<And>x. live_sources s' x \<noteq> None \<Longrightarrow> x < next_object s \<Longrightarrow> live_sources s x \<noteq> None"
    by blast+
qed

lemma run_ops_no_return:
  "run_ops xxh ops s = Inr s2 \<Longrightarrow> tracking_ok s \<Longrightarrow> n < next_object s \<Longrightarrow>
   live_sources s2 n \<noteq> None \<Longrightarrow> live_sources s n \<noteq> None"
proof (induction ops arbitrary: s)
  case Nil
  then show ?case by simp
next
  case (Cons op ops)
  show ?case
  proof (cases op)
    case (Lookup k r f tex fr)
    with Cons.prems(1) obtain m s1 where l: "LookupSource xxh s k r f tex fr = Inr (m, s1)"
      and ro: "run_ops xxh ops s1 = Inr s2"
      by (auto split: sum.splits)
    note g = LookupSource_grows [OF l]
    from g(1) Cons.prems(3) have "n < next_object s1" by simp
    from Cons.IH [OF ro LookupSource_ok [OF l Cons.prems(2)] this Cons.prems(4)]
    have "live_sources s1 n \<noteq> None" .
    from g(2) [OF this Cons.prems(3)] show ?thesis .
  next
    case (CompactCache fr)
    with Cons.prems(1) obtain s1 where c: "Compact xxh fr s = Inr s1"
      and ro: "run_ops xxh ops s1 = Inr s2"
      by (auto split: sum.splits)
    note sh = Compact_shrinks [OF c Cons.prems(2)]
    from sh(1) Cons.prems(3) have "n < next_object s1" by simp
    from Cons.IH [OF ro Compact_ok [OF c Cons.prems(2)] this Cons.prems(4)]
    have "live_sources s1 n \<noteq> None" .
    from sh(2) [OF this] show ?thesis .
  qed
qed

lemma run_ops_keeps:
  "run_ops xxh ops s = Inr s2 \<Longrightarrow> is_source_for s k n \<Longrightarrow> live_sources s2 n \<noteq> None \<Longrightarrow>
   is_source_for s2 k n"
proof (induction ops arbitrary: s)
  case Nil
  then show ?case by simp
next
  case (Cons op ops)
  from Cons.prems(2) have ok: "tracking_ok s" by (simp add: is_source_for_def)
  show ?case
  proof (cases op)
    case (Lookup k' r f tex fr)
    with Cons.prems(1) obtain m s1 where l: "LookupSource xxh s k' r f tex fr = Inr (m, s1)"
      and ro: "run_ops xxh ops s1 = Inr s2"
      by (auto split: sum.splits)
    from LookupSource_keeps [OF l Cons.prems(2)] have "is_source_for s1 k n" by simp
    from Cons.IH [OF ro this Cons.prems(3)] show ?thesis .
  next
    case (CompactCache fr)
    with Cons.prems(1) obtain s1 where c: "Compact xxh fr s = Inr s1"
      and ro: "run_ops xxh ops s1 = Inr s2"
      by (auto split: sum.splits)
    from LookupSource_returns [OF Cons.prems(2), THEN conjunct1] have "live_sources s n \<noteq> None" by auto
    with ok have "n < next_object s" by (simp add: tracking_ok_def ids_fresh_def)
    with Compact_shrinks(1) [OF c ok] have nx: "n < next_object s1" by simp
    from run_ops_no_return [OF ro Compact_ok [OF c ok] nx Cons.prems(3)]
    have "live_sources s1 n \<noteq> None" .
    from Cons.IH [OF ro Compact_keeps [OF c Cons.prems(2) this] Cons.prems(3)] show ?thesis .
  qed
qed

text \<open>
  C4. A source that \<^verbatim>\<open>LookupSource\<close> returned for a key should come back, as the same
  object, from a later lookup of the same key when nothing was invalidated in between.
  With sound bookkeeping at the start, a key of one of the 32 pages, and any run of
  lookups (of any keys) and compactions in between that leaves the source alive: the
  source is live with the key \<open>k\<close> after the first lookup and after the run, and a
  lookup of \<open>k\<close> with any rectangle, flags, frame number and answer of the device returns
  the same object \<open>n\<close> and leaves the number of entries of the hash cache as it was.
\<close>

theorem C4_second_lookup_returns_same_source:
  assumes ok: "tracking_ok s" and pk: "page k < 32"
    and first: "LookupSource xxh s k rect flags tex frame = Inr (n, s1)"
    and between: "run_ops xxh ops s1 = Inr s2"
    and alive: "live_sources s2 n \<noteq> None"
  shows "(\<exists>src. live_sources s1 n = Some src \<and> key src = k) \<and>
         (\<exists>src. live_sources s2 n = Some src \<and> key src = k) \<and>
         (\<exists>s3. LookupSource xxh s2 k rect' flags' tex' frame' = Inr (n, s3) \<and>
               length (s_hash_cache s3) = length (s_hash_cache s2))"
proof -
  note h1 = LookupSource_establishes [OF first ok pk]
  note h2 = run_ops_keeps [OF between h1 alive]
  from LookupSource_returns [OF h2, of xxh rect' flags' tex' frame'] obtain s3 where
    l: "LookupSource xxh s2 k rect' flags' tex' frame' = Inr (n, s3)" by blast
  from LookupSource_keeps [OF l h2] have "length (s_hash_cache s3) = length (s_hash_cache s2)"
    by simp
  with l LookupSource_returns [OF h1, THEN conjunct1] LookupSource_returns [OF h2, THEN conjunct1]
  show ?thesis by blast
qed

lemma update_entry_Nil: "update_entry k f [] = []"
  by (simp add: update_entry_def)

lemma update_entry_append:
  "update_entry k f (xs @ ys) = update_entry k f xs @ update_entry k f ys"
  by (simp add: update_entry_def)

lemma compact_loop_none_aged:
  "over_budget s \<Longrightarrow>
   \<forall>k \<in> set ks. \<exists>e. map_of (s_hash_cache s) k = Some e \<and> \<not> (ref_count e = 0 \<and> last_used_frame e < m) \<Longrightarrow>
   compact_loop xxh m ks (True, pl, s) =
     Inr (True, pl @ map (\<lambda>k. (k, sint (last_used_frame (the (map_of (s_hash_cache s) k))))) ks, s)"
proof (induction ks arbitrary: pl)
  case Nil
  then show ?case by simp
next
  case (Cons k ks)
  from Cons.prems(2) obtain e where e: "map_of (s_hash_cache s) k = Some e"
    and na: "\<not> (ref_count e = 0 \<and> last_used_frame e < m)" by auto
  from Cons.prems(2) have rest: "\<forall>k \<in> set ks. \<exists>e. map_of (s_hash_cache s) k = Some e \<and>
      \<not> (ref_count e = 0 \<and> last_used_frame e < m)" by simp
  have "compact_loop xxh m (k # ks) (True, pl, s) =
          compact_loop xxh m ks (True, pl @ [(k, sint (last_used_frame e))], s)"
    using e na Cons.prems(1) by auto
  with Cons.IH [OF Cons.prems(1) rest, of "pl @ [(k, sint (last_used_frame e))]"] e
  show ?case by simp
qed

lemma insort_after_min:
  "\<forall>x \<in> set xs. f y < f x \<Longrightarrow>
   foldr (insort_key f) xs [y] = y # foldr (insort_key f) xs []"
  by (induction xs) (auto simp: not_le)

lemma sort_key_last_min:
  assumes "\<forall>x \<in> set xs. f y < f x" and "sorted (map f xs)"
  shows "sort_key f (xs @ [y]) = y # xs"
proof -
  have "sort_key f (xs @ [y]) = foldr (insort_key f) xs [y]"
    by (simp add: sort_key_def)
  also have "\<dots> = y # foldr (insort_key f) xs []"
    by (rule insort_after_min [OF assms(1)])
  also have "foldr (insort_key f) xs [] = sort_key f xs"
    by (simp add: sort_key_def)
  also have "sort_key f xs = xs"
    by (rule sort_key_id_if_sorted [OF assms(2)])
  finally show ?thesis .
qed

lemma c4_others_keys: "HashCacheKey a b 0 \<notin> fst ` set c4_others"
  by (auto simp: c4_others_def)

lemma c4_others_miss: "map_of c4_others (HashCacheKey a b 0) = None"
  using c4_others_keys by (simp add: map_of_eq_None_iff)

lemma length_c4_others: "length c4_others = 500"
  by (simp add: c4_others_def)

lemma map_of_c4_others: "k \<in> fst ` set c4_others \<Longrightarrow> map_of c4_others k = Some c4_unreferenced"
proof -
  assume "k \<in> fst ` set c4_others"
  then have "k \<in> (\<lambda>i. HashCacheKey (of_nat i) 0 2) ` set [1..<501]"
    by (auto simp: c4_others_def image_iff)
  then show ?thesis
    unfolding c4_others_def by (rule map_of_const_keys)
qed

lemma tracking_ok_initial: "tracking_ok initial_state"
  by (simp add: tracking_ok_def ids_fresh_def pages_ok_def sources_listed_def initial_state_def
      empty_page_def)

lemma tracking_ok_c4_crowded: "tracking_ok c4_crowded"
  by (simp add: tracking_ok_def ids_fresh_def pages_ok_def sources_listed_def initial_state_def
      empty_page_def c4_crowded_def)

lemmas lookup_defs = LookupSource_def CreateSource_def TextureModeHasPalette_def
  LookupHashCache_miss ReturnSource_def mode_value_def LoopXWrappedPages_def
  TexturePageCountForMode_def PalettePageCountForMode_def PalettePageNumber_def GetXBase_def
  GetYBase_def add_page_ref_def add_page_ref_back_def GetTextureRect_def GetPaletteRect_def
  GetPaletteWidth_def update_entry_Nil update_entry_Cons update_entry_append

text \<open>
  On the empty cache the first lookup creates the source. Two compactions and another
  lookup of the key follow; the last lookup, for which the device has no texture left,
  returns the source again.
\<close>

theorem C4_second_lookup_returns_same_source_witness:
  "tracking_ok initial_state \<and> page c4_key < 32 \<and>
   (\<exists>n s1 s2 s3.
      LookupSource count_hash initial_state c4_key (GSVector4i 0 0 64 64) 0 (Some example_texture) 1
        = Inr (n, s1)
      \<and> run_ops count_hash
           [CompactCache 1, Lookup c4_key (GSVector4i 0 0 32 32) 0 None 2, CompactCache 2] s1 = Inr s2
      \<and> live_sources s2 n \<noteq> None
      \<and> (\<exists>src. live_sources s2 n = Some src \<and> key src = c4_key)
      \<and> LookupSource count_hash s2 c4_key (GSVector4i 16 16 32 32) 0 None 3 = Inr (n, s3)
      \<and> length (s_hash_cache s3) = length (s_hash_cache s2))"
proof -
  obtain th where th: "HashPage count_hash (\<lambda>i. 0) 0 Palette4Bit = Inr th"
    using HashPage_Palette4Bit by blast
  obtain ph where ph: "HashPalette count_hash (\<lambda>i. 0) 0 Palette4Bit = Inr ph"
    using HashPalette_Palette4Bit by blast
  have pk: "page c4_key < 32" by (simp add: c4_key_def)
  have "case LookupSource count_hash initial_state c4_key (GSVector4i 0 0 64 64) 0 (Some example_texture) 1 of
          Inl f \<Rightarrow> False
        | Inr (n, s1) \<Rightarrow>
            (case run_ops count_hash
                 [CompactCache 1, Lookup c4_key (GSVector4i 0 0 32 32) 0 None 2, CompactCache 2] s1 of
               Inl f \<Rightarrow> False
             | Inr s2 \<Rightarrow> live_sources s2 n \<noteq> None)"
    by (simp add: lookup_defs c4_key_def th ph initial_state_def empty_page_def
        example_texture_def rect_defs geo_defs INVALID_RECT_def map_add_def
        Compact_def over_budget_def MAX_HASH_CACHE_SIZE_def MAX_HASH_CACHE_AGE_def)
  then obtain n s1 where
    first: "LookupSource count_hash initial_state c4_key (GSVector4i 0 0 64 64) 0 (Some example_texture) 1
              = Inr (n, s1)"
    and r: "case run_ops count_hash
                 [CompactCache 1, Lookup c4_key (GSVector4i 0 0 32 32) 0 None 2, CompactCache 2] s1 of
               Inl f \<Rightarrow> False
             | Inr s2 \<Rightarrow> live_sources s2 n \<noteq> None"
    by (cases "LookupSource count_hash initial_state c4_key (GSVector4i 0 0 64 64) 0 (Some example_texture) 1")
       (auto simp del: run_ops.simps)
  from r obtain s2 where
    between: "run_ops count_hash
           [CompactCache 1, Lookup c4_key (GSVector4i 0 0 32 32) 0 None 2, CompactCache 2] s1 = Inr s2"
    and alive: "live_sources s2 n \<noteq> None"
    by (cases "run_ops count_hash
           [CompactCache 1, Lookup c4_key (GSVector4i 0 0 32 32) 0 None 2, CompactCache 2] s1")
       (auto simp del: run_ops.simps)
  from C4_second_lookup_returns_same_source [OF tracking_ok_initial pk first between alive,
      of "GSVector4i 16 16 32 32" 0 None 3]
    tracking_ok_initial pk first between alive
  show ?thesis by blast
qed

text \<open>
  A compaction is no invalidation, and it destroys a live source when the purge reaches
  the entry that the source points to. The cache holds 500 entries last used in frame
  \<open>0x7FFFFFFF\<close>. In frame \<open>0x80000000\<close> a lookup creates the source 0 and the entry
  number 501; read as a signed number, as the purge list does, its frame is the smallest.
  \<^verbatim>\<open>Compact\<close> at the end of the frame evicts that entry and destroys the source 0, and
  the next lookup of the same key creates the object 1 and a new entry.
\<close>

theorem C4_compact_between_lookups:
  "tracking_ok c4_crowded \<and>
   (\<exists>s1 s2 s3.
      LookupSource count_hash c4_crowded c4_key (GSVector4i 0 0 64 64) 0 (Some example_texture) 0x80000000
        = Inr (0, s1)
      \<and> Compact count_hash 0x80000000 s1 = Inr s2
      \<and> live_sources s2 0 = None
      \<and> LookupSource count_hash s2 c4_key (GSVector4i 0 0 64 64) 0 (Some example_texture) 0x80000001
        = Inr (1, s3)
      \<and> length (s_hash_cache s2) = 500 \<and> length (s_hash_cache s3) = 501)"
proof -
  obtain th where th: "HashPage count_hash (\<lambda>i. 0) 0 Palette4Bit = Inr th"
    using HashPage_Palette4Bit by blast
  obtain ph where ph: "HashPalette count_hash (\<lambda>i. 0) 0 Palette4Bit = Inr ph"
    using HashPalette_Palette4Bit by blast
  let ?hk = "HashCacheKey th ph 0"
  let ?src = "\<lparr>key = c4_key, texture_hash = th, palette_hash = ph,
               texture_rect = GSVector4i 0 0 64 256, palette_rect = GSVector4i 0 0 16 1,
               active_uv_rect = GSVector4i 0 0 64 64, palette_record_flags = 0,
               from_hash_cache = ?hk, src_page_refs = [0]\<rparr>"
  let ?before = "\<lambda>j. c4_crowded\<lparr>next_object := j\<rparr>"
  let ?sampled = "\<lambda>j fr. c4_crowded\<lparr>
        s_pages := (\<lambda>pn. empty_page)(0 := empty_page\<lparr>pg_sources := [j]\<rparr>),
        live_sources := [j \<mapsto> ?src], next_object := Suc j,
        s_hash_cache := c4_others @ [(?hk, \<lparr>texture = example_texture, ref_count = 1,
                                            last_used_frame = fr, sources = [j]\<rparr>)],
        s_hash_cache_memory_usage := 501 * 262144\<rparr>"
  have first: "\<And>j fr. LookupSource count_hash (?before j) c4_key (GSVector4i 0 0 64 64) 0
                          (Some example_texture) fr = Inr (j, ?sampled j fr)"
    by (simp add: lookup_defs c4_key_def th ph c4_crowded_def initial_state_def empty_page_def
        example_texture_def rect_defs geo_defs INVALID_RECT_def c4_others_miss
        update_entry_absent c4_others_keys map_add_def)
  let ?F = "0x80000000 :: 32 word"
  let ?E = "\<lparr>texture = example_texture, ref_count = 1, last_used_frame = ?F, sources = [0]\<rparr>"
  define S1 where "S1 = ?sampled 0 ?F"
  define D1 where "D1 = S1\<lparr>s_pages := (\<lambda>pn. empty_page), live_sources := Map.empty,
          s_hash_cache := c4_others @ [(?hk, ?E\<lparr>sources := [], ref_count := 0\<rparr>)]\<rparr>"
  define S2 where "S2 = ?before 1"
  have cache: "s_hash_cache S1 = c4_others @ [(?hk, ?E)]"
    by (simp add: S1_def c4_crowded_def)
  have over: "over_budget S1"
    by (simp add: over_budget_def MAX_HASH_CACHE_SIZE_def length_c4_others cache)
  have mo: "\<And>k. k \<in> fst ` set c4_others \<Longrightarrow> map_of (c4_others @ [(?hk, ?E)]) k = Some c4_unreferenced"
    by (simp add: map_add_def map_of_c4_others)
  have mh: "map_of (c4_others @ [(?hk, ?E)]) ?hk = Some ?E"
    by (simp add: map_add_def c4_others_miss)
  have mf: "(if ?F > MAX_HASH_CACHE_AGE then ?F - MAX_HASH_CACHE_AGE else 0) = 0x7FFFFDA8"
    by (simp add: MAX_HASH_CACHE_AGE_def)
  have keys: "\<forall>k \<in> set (map fst (s_hash_cache S1)).
      \<exists>e. map_of (s_hash_cache S1) k = Some e \<and>
          \<not> (ref_count e = 0 \<and> last_used_frame e < 0x7FFFFDA8)"
    unfolding cache
  proof
    fix k assume "k \<in> set (map fst (c4_others @ [(?hk, ?E)]))"
    then have "k \<in> fst ` set c4_others \<or> k = ?hk" by auto
    then show "\<exists>e. map_of (c4_others @ [(?hk, ?E)]) k = Some e \<and>
          \<not> (ref_count e = 0 \<and> last_used_frame e < 0x7FFFFDA8)"
    proof
      assume "k \<in> fst ` set c4_others"
      from mo [OF this] show ?thesis by (simp add: c4_unreferenced_def)
    next
      assume "k = ?hk"
      with mh show ?thesis by simp
    qed
  qed
  have pl: "map (\<lambda>k. (k, sint (last_used_frame (the (map_of (c4_others @ [(?hk, ?E)]) k)))))
                (map fst (c4_others @ [(?hk, ?E)]))
            = map (\<lambda>k. (k, 2147483647)) (map fst c4_others) @ [(?hk, - 2147483648)]"
  proof -
    have "\<And>k. k \<in> fst ` set c4_others \<Longrightarrow>
            sint (last_used_frame (the (map_of (c4_others @ [(?hk, ?E)]) k))) = 2147483647"
      using mo by (simp add: c4_unreferenced_def)
    moreover have "sint (last_used_frame (the (map_of (c4_others @ [(?hk, ?E)]) ?hk))) = - 2147483648"
      using mh by simp
    ultimately show ?thesis by simp
  qed
  have "compact_loop count_hash 0x7FFFFDA8 (map fst (s_hash_cache S1)) (True, [], S1) =
          Inr (True, [] @ map (\<lambda>k. (k, sint (last_used_frame (the (map_of (s_hash_cache S1) k)))))
                            (map fst (s_hash_cache S1)), S1)"
    by (rule compact_loop_none_aged [OF over keys])
  then have cl: "compact_loop count_hash 0x7FFFFDA8 (map fst (s_hash_cache S1)) (True, [], S1) =
          Inr (True, map (\<lambda>k. (k, 2147483647)) (map fst c4_others) @ [(?hk, - 2147483648)], S1)"
    unfolding append_Nil cache pl .
  have srt: "sort_key snd (map (\<lambda>k. (k, 2147483647 :: int)) (map fst c4_others) @ [(?hk, - 2147483648)])
             = (?hk, - 2147483648) # map (\<lambda>k. (k, 2147483647)) (map fst c4_others)"
    by (rule sort_key_last_min) (auto simp: comp_def map_replicate_const)
  have destroy: "DestroySource count_hash 0 S1 = Inr D1"
  proof -
    have l: "LoopRectPages (GSVector4i 0 0 64 64) = [0]"
      by (simp add: geo_defs)
    have p: "((\<lambda>pn. empty_page)(0 := empty_page\<lparr>pg_sources := [0]\<rparr>))(0 := empty_page) = (\<lambda>pn. empty_page)"
      by (rule ext) simp
    have q: "empty_page\<lparr>pg_sources := []\<rparr> = empty_page"
      by (simp add: empty_page_def)
    have c: "\<And>(e :: PageEntry) x. (\<lambda>pn :: nat. e)(x := e) = (\<lambda>pn. e)"
      by auto
    show ?thesis
      by (simp add: DestroySource_def S1_def D1_def c4_crowded_def initial_state_def INVALID_RECT_def
          l unlink_source_def update_entry_Cons update_entry_Nil update_entry_append
          update_entry_absent c4_others_keys p q c map_add_def c4_others_miss empty_page_def)
  qed
  have m1: "map_of (s_hash_cache S1) ?hk = Some ?E"
    unfolding cache by (rule mh)
  have m2: "map_of (s_hash_cache D1) ?hk = Some (?E\<lparr>sources := [], ref_count := 0\<rparr>)"
    by (simp add: D1_def map_add_def c4_others_miss)
  have remove: "RemoveFromHashCache count_hash ?hk S1 = Inr S2"
    apply (simp add: RemoveFromHashCache_def m1 destroy m2)
    apply (simp add: S2_def D1_def S1_def c4_crowded_def initial_state_def example_texture_def
        filter_key_absent c4_others_keys)
    done
  have within: "\<not> over_budget S2"
    by (simp add: S2_def over_budget_def c4_crowded_def initial_state_def length_c4_others
        MAX_HASH_CACHE_SIZE_def)
  have purge: "purge_loop count_hash ((?hk, - 2147483648) # map (\<lambda>k. (k, 2147483647)) (map fst c4_others))
                 S1 = Inr S2"
    by (simp only: purge_loop.simps over if_True fst_conv remove sum.case
        purge_loop_within [OF within])
  have compact: "Compact count_hash ?F S1 = Inr S2"
    by (simp only: Compact_def Let_def mf over cl sum.case prod.case if_True srt purge)
  have b0: "?before 0 = c4_crowded"
    by (simp add: c4_crowded_def initial_state_def)
  have l1: "LookupSource count_hash c4_crowded c4_key (GSVector4i 0 0 64 64) 0 (Some example_texture) ?F
              = Inr (0, S1)"
    unfolding S1_def using first [of 0 ?F] by (simp add: b0)
  have l3: "LookupSource count_hash S2 c4_key (GSVector4i 0 0 64 64) 0 (Some example_texture) 0x80000001
              = Inr (1, ?sampled 1 0x80000001)"
    unfolding S2_def using first [of 1 "0x80000001"] by simp
  have dead: "live_sources S2 0 = None"
    by (simp add: S2_def c4_crowded_def initial_state_def)
  have len2: "length (s_hash_cache S2) = 500"
    by (simp add: S2_def c4_crowded_def length_c4_others)
  have len3: "length (s_hash_cache (?sampled 1 0x80000001)) = 501"
    by (simp add: c4_crowded_def length_c4_others)
  from l1 compact dead l3 len2 len3 tracking_ok_c4_crowded show ?thesis by blast
qed

end
